theory Spec2Isabelle
  imports
    Complex_Main
    "HOL-Library.AList"
    "HOL-Library.Multiset"
    "HOL-Library.Char_ord"
    "HOL-Library.List_Lexorder"
begin

section \<open>The workflow data store of cylc-flow (\<^verbatim>\<open>cylc/flow/data_store_mgr.py\<close>)\<close>

text \<open>
  The development embeds the data-store manager of cylc-flow in HOL. Python dictionaries
  keep their insertion order, so a dictionary is an association list with distinct keys
  (\<^const>\<open>AList.update\<close> is \<^verbatim>\<open>d[k] = v\<close>, \<^const>\<open>AList.delete\<close> is \<^verbatim>\<open>del d[k]\<close>,
  \<^const>\<open>map_of\<close> is the lookup). Python sets are HOL sets. Strings are byte strings: a
  Python \<^verbatim>\<open>str\<close> is represented by its UTF-8 encoding, whose bytewise lexicographic
  order is the order of the code points that Python's \<^verbatim>\<open>sorted\<close> uses.
\<close>

subsection \<open>Protocol-buffer messages\<close>

text \<open>
  The message classes (\<^verbatim>\<open>PbTaskProxy\<close>, \<^verbatim>\<open>PbFamilyProxy\<close>, \<^verbatim>\<open>PbWorkflow\<close>, ...) are
  generated code that is not part of the sources. A message is modelled by the list of
  the fields that are set in it, each with its value: what \<^verbatim>\<open>ListFields()\<close> returns. A
  field of a nested message is named by its path (\<^verbatim>\<open>edges.edges\<close>). The values are
  singular scalars, repeated fields (the elements of a repeated message field are kept as
  opaque strings) and string-to-integer map fields. Reading a field that is not set gives
  the default of its type, and a singular field that is assigned its default is not set
  (proto3). The order of the fields in the list has no meaning; every observation goes
  through \<^const>\<open>map_of\<close>.
\<close>

datatype fval =
    VStr string
  | VInt int
  | VBool bool
  | VFloat real
  | VRep "string list"
  | VMap "(string \<times> int) list"

type_synonym msg = "(string \<times> fval) list"
type_synonym ident = string

definition get_str :: "msg \<Rightarrow> string \<Rightarrow> string" where
  "get_str m f = (case map_of m f of Some (VStr s) \<Rightarrow> s | _ \<Rightarrow> [])"

definition get_int :: "msg \<Rightarrow> string \<Rightarrow> int" where
  "get_int m f = (case map_of m f of Some (VInt i) \<Rightarrow> i | _ \<Rightarrow> 0)"

definition get_bool :: "msg \<Rightarrow> string \<Rightarrow> bool" where
  "get_bool m f = (case map_of m f of Some (VBool b) \<Rightarrow> b | _ \<Rightarrow> False)"

definition get_rep :: "msg \<Rightarrow> string \<Rightarrow> string list" where
  "get_rep m f = (case map_of m f of Some (VRep xs) \<Rightarrow> xs | _ \<Rightarrow> [])"

definition get_map :: "msg \<Rightarrow> string \<Rightarrow> (string \<times> int) list" where
  "get_map m f = (case map_of m f of Some (VMap xs) \<Rightarrow> xs | _ \<Rightarrow> [])"

definition get_id :: "msg \<Rightarrow> ident" where
  "get_id m = get_str m ''id''"

definition is_default :: "fval \<Rightarrow> bool" where
  "is_default v =
     (v = VStr [] \<or> v = VInt 0 \<or> v = VBool False \<or> v = VFloat 0 \<or> v = VRep [] \<or> v = VMap [])"

definition set_field :: "string \<Rightarrow> fval \<Rightarrow> msg \<Rightarrow> msg" where
  "set_field f v m = (if is_default v then AList.delete f m else AList.update f v m)"

definition ListFields :: "msg \<Rightarrow> (string \<times> fval) list" where
  "ListFields m = m"

definition ClearField :: "string \<Rightarrow> msg \<Rightarrow> msg" where
  "ClearField f m = AList.delete f m"

text \<open>
  \<^verbatim>\<open>MergeFrom\<close>: a singular field that is set in the source overwrites, a repeated field
  is appended, the entries of a map field are written into the target's map.
\<close>

fun merge_value :: "fval option \<Rightarrow> fval \<Rightarrow> fval" where
  "merge_value (Some (VRep xs)) (VRep ys) = VRep (xs @ ys)"
| "merge_value (Some (VMap xs)) (VMap ys) = VMap (fold (\<lambda>(k, n). AList.update k n) ys xs)"
| "merge_value _ v = v"

definition merge_field :: "string \<times> fval \<Rightarrow> msg \<Rightarrow> msg" where
  "merge_field fv m = AList.update (fst fv) (merge_value (map_of m (fst fv)) (snd fv)) m"

definition MergeFrom :: "msg \<Rightarrow> msg \<Rightarrow> msg" where
  "MergeFrom dst src = fold merge_field (ListFields src) dst"

definition wf_msg :: "msg \<Rightarrow> bool" where
  "wf_msg m = distinct (map fst m)"

subsection \<open>The store, the deltas and the constants of the module\<close>

datatype kind = EDGES | FAMILIES | FAMILY_PROXIES | JOBS | TASKS | TASK_PROXIES | WORKFLOW

definition kind_name :: "kind \<Rightarrow> string" where
  "kind_name k = (case k of EDGES \<Rightarrow> ''edges'' | FAMILIES \<Rightarrow> ''families''
     | FAMILY_PROXIES \<Rightarrow> ''family_proxies'' | JOBS \<Rightarrow> ''jobs'' | TASKS \<Rightarrow> ''tasks''
     | TASK_PROXIES \<Rightarrow> ''task_proxies'' | WORKFLOW \<Rightarrow> ''workflow'')"

definition ALL_DELTAS :: string where
  "ALL_DELTAS = ''all''"

text \<open>The keys of \<^verbatim>\<open>DATA_TEMPLATE\<close> and of \<^verbatim>\<open>self.deltas\<close>, in their order.\<close>

definition kinds :: "kind list" where
  "kinds = [EDGES, FAMILIES, FAMILY_PROXIES, JOBS, TASKS, TASK_PROXIES, WORKFLOW]"

text \<open>
  The values of \<^verbatim>\<open>CLEAR_FIELD_MAP\<close> are Python sets; each is given by a list of its
  members, so that the loop over it can be written down. No result depends on the order.
\<close>

definition CLEAR_FIELD_MAP :: "kind \<Rightarrow> string list" where
  "CLEAR_FIELD_MAP k = (case k of
       EDGES \<Rightarrow> []
     | FAMILIES \<Rightarrow> []
     | FAMILY_PROXIES \<Rightarrow> [''state_totals'', ''states'']
     | JOBS \<Rightarrow> []
     | TASKS \<Rightarrow> []
     | TASK_PROXIES \<Rightarrow> [''prerequisites'', ''outputs'']
     | WORKFLOW \<Rightarrow> [''state_totals'', ''states''])"

text \<open>
  A store has the shape of \<^verbatim>\<open>DATA_TEMPLATE\<close>: a dictionary from id to message for each
  of the six collection kinds (\<open>elements\<close>) and the workflow message. The slot
  \<open>elements d WORKFLOW\<close> stands for nothing in the program; no function reads or
  writes it.
\<close>

record store =
  elements :: "kind \<Rightarrow> (ident \<times> msg) list"
  workflow :: msg

definition DATA_TEMPLATE :: store where
  "DATA_TEMPLATE = \<lparr>elements = (\<lambda>k. []), workflow = []\<rparr>"

text \<open>
  The delta messages: \<^verbatim>\<open>EDeltas\<close>, \<^verbatim>\<open>FDeltas\<close>, \<^verbatim>\<open>FPDeltas\<close>, \<^verbatim>\<open>JDeltas\<close>, \<^verbatim>\<open>TDeltas\<close> and
  \<^verbatim>\<open>TPDeltas\<close> carry lists of entities and a checksum; \<^verbatim>\<open>WDeltas\<close> carries the workflow
  message twice and has neither \<^verbatim>\<open>pruned\<close> nor \<^verbatim>\<open>checksum\<close> (the code asks
  \<^verbatim>\<open>hasattr\<close> for both before it uses them).
\<close>

record deltas =
  time :: real
  checksum :: nat
  added :: "msg list"
  updated :: "msg list"
  pruned :: "ident list"
  reloaded :: bool

record wdeltas =
  w_time :: real
  w_added :: msg
  w_updated :: msg
  w_reloaded :: bool

definition empty_deltas :: deltas where
  "empty_deltas = \<lparr>time = 0, checksum = 0, added = [], updated = [], pruned = [], reloaded = False\<rparr>"

definition empty_wdeltas :: wdeltas where
  "empty_wdeltas = \<lparr>w_time = 0, w_added = [], w_updated = [], w_reloaded = False\<rparr>"

text \<open>\<^verbatim>\<open>delta.ListFields()\<close> is non-empty when some field of the delta message is set.\<close>

definition deltas_set :: "deltas \<Rightarrow> bool" where
  "deltas_set d = (time d \<noteq> 0 \<or> checksum d \<noteq> 0 \<or> added d \<noteq> [] \<or> updated d \<noteq> []
                   \<or> pruned d \<noteq> [] \<or> reloaded d)"

definition wdeltas_set :: "wdeltas \<Rightarrow> bool" where
  "wdeltas_set d = (w_time d \<noteq> 0 \<or> w_added d \<noteq> [] \<or> w_updated d \<noteq> [] \<or> w_reloaded d)"

datatype exc = KeyError | ValueError | AttributeError | IndexError | TypeError | RecursionError

text \<open>
  A call returns, or it raises and leaves the object in the state the exception found it
  in.
\<close>

datatype 'a outcome = Returned 'a | Raised exc 'a

fun state_of :: "'a outcome \<Rightarrow> 'a" where
  "state_of (Returned s) = s"
| "state_of (Raised e s) = s"

datatype log_level = DEBUG

type_synonym log_record = "log_level \<times> string"

subsection \<open>\<^verbatim>\<open>apply_delta\<close>\<close>

text \<open>
  \<^verbatim>\<open>data[key].update({e.id: e for e in delta.added})\<close>: the dictionary comprehension,
  then the update.
\<close>

definition dict_by_id :: "msg list \<Rightarrow> (ident \<times> msg) list" where
  "dict_by_id es = fold (\<lambda>e d. AList.update (get_id e) e d) es []"

definition dict_update :: "('k \<times> 'v) list \<Rightarrow> ('k \<times> 'v) list \<Rightarrow> ('k \<times> 'v) list" where
  "dict_update d other = fold (\<lambda>(k, v). AList.update k v) other d"

text \<open>
  The body of the loop over \<^verbatim>\<open>delta.updated\<close> (lines 171 to 186), on the dictionary
  \<^verbatim>\<open>data[key]\<close> and the log. The first access to \<^verbatim>\<open>data[key][element.id]\<close> raises
  \<^verbatim>\<open>KeyError\<close> before anything is changed, and the handler logs and continues.
  \<^verbatim>\<open>str(exc)\<close> of a \<^verbatim>\<open>KeyError\<close> is the key in quotes.
\<close>

definition clear_fields :: "kind \<Rightarrow> msg \<Rightarrow> msg \<Rightarrow> msg" where
  "clear_fields key element stored =
     (if CLEAR_FIELD_MAP key \<noteq> []
      then fold (\<lambda>(field, _) m. if field \<in> set (CLEAR_FIELD_MAP key) then ClearField field m else m)
             (ListFields element) stored
      else stored)"

definition missing_element_msg :: "ident \<Rightarrow> string" where
  "missing_element_msg i =
     ''Missing Data-Store element on update application: '' @ [CHR 0x27] @ i @ [CHR 0x27]"

definition clear_and_merge :: "kind \<Rightarrow> msg \<Rightarrow> msg \<Rightarrow> msg" where
  "clear_and_merge key element stored = MergeFrom (clear_fields key element stored) element"

definition apply_updated_element ::
  "kind \<Rightarrow> msg \<Rightarrow> (ident \<times> msg) list \<times> log_record list \<Rightarrow> (ident \<times> msg) list \<times> log_record list"
where
  "apply_updated_element key element dl =
     (case map_of (fst dl) (get_id element) of
        None \<Rightarrow> (fst dl, snd dl @ [(DEBUG, missing_element_msg (get_id element))])
      | Some stored \<Rightarrow>
          (AList.update (get_id element) (clear_and_merge key element stored) (fst dl), snd dl))"

definition apply_updated ::
  "kind \<Rightarrow> msg list \<Rightarrow> (ident \<times> msg) list \<times> log_record list \<Rightarrow> (ident \<times> msg) list \<times> log_record list"
where
  "apply_updated key es dl = fold (apply_updated_element key) es dl"

text \<open>
  The loop over \<^verbatim>\<open>delta.pruned\<close> (lines 190 to 201). \<^verbatim>\<open>remove\<close> on a repeated field
  raises \<^verbatim>\<open>ValueError\<close> when the value is not in it, and the lookup of the task or family
  raises \<^verbatim>\<open>KeyError\<close>; neither is caught.
\<close>

definition list_remove :: "string \<Rightarrow> string \<Rightarrow> msg \<Rightarrow> msg option" where
  "list_remove field x m =
     (if x \<in> set (get_rep m field) then Some (set_field field (VRep (remove1 x (get_rep m field))) m)
      else None)"

definition prune_refs :: "kind \<Rightarrow> string \<Rightarrow> kind \<Rightarrow> ident \<Rightarrow> msg \<Rightarrow> store \<Rightarrow> store outcome" where
  "prune_refs defs ref key del_id node data =
     (case map_of (elements data defs) (get_str node ref) of
        None \<Rightarrow> Raised KeyError data
      | Some d \<Rightarrow>
          (case list_remove ''proxies'' del_id d of
             None \<Rightarrow> Raised ValueError data
           | Some d' \<Rightarrow>
               (let data1 = data\<lparr>elements := (elements data)
                              (defs := AList.update (get_str node ref) d' (elements data defs))\<rparr>
                in case list_remove (kind_name key) del_id (workflow data1) of
                     None \<Rightarrow> Raised ValueError data1
                   | Some w \<Rightarrow> Returned (data1\<lparr>workflow := w\<rparr>))))"

definition prune_element :: "kind \<Rightarrow> ident \<Rightarrow> store \<Rightarrow> store outcome" where
  "prune_element key del_id data =
     (case map_of (elements data key) del_id of
        None \<Rightarrow> Returned data
      | Some node \<Rightarrow>
          (let r = (if key = TASK_PROXIES then prune_refs TASKS ''task'' key del_id node data
                    else if key = FAMILY_PROXIES
                    then prune_refs FAMILIES ''family'' key del_id node data
                    else if key = EDGES
                    then (case list_remove ''edges.edges'' del_id (workflow data) of
                            None \<Rightarrow> Raised ValueError data
                          | Some w \<Rightarrow> Returned (data\<lparr>workflow := w\<rparr>))
                    else Returned data)
           in case r of
                Raised e data' \<Rightarrow> Raised e data'
              | Returned data' \<Rightarrow>
                  Returned (data'\<lparr>elements := (elements data')
                              (key := AList.delete del_id (elements data' key))\<rparr>)))"

fun prune_elements :: "kind \<Rightarrow> ident list \<Rightarrow> store \<Rightarrow> store outcome" where
  "prune_elements key [] data = Returned data"
| "prune_elements key (del_id # rest) data =
     (case prune_element key del_id data of
        Raised e data' \<Rightarrow> Raised e data'
      | Returned data' \<Rightarrow> prune_elements key rest data')"

text \<open>
  \<^verbatim>\<open>apply_delta(key, delta, data)\<close> for a key other than \<^verbatim>\<open>WORKFLOW\<close>: the branches
  \<^verbatim>\<open>key != WORKFLOW\<close> of the three phases. The result is the outcome with the store, and
  the records written to the log.
\<close>

definition apply_delta :: "kind \<Rightarrow> deltas \<Rightarrow> store \<Rightarrow> store outcome \<times> log_record list" where
  "apply_delta key delta data =
     (let d1 = (if added delta \<noteq> []
                then dict_update (elements data key) (dict_by_id (added delta))
                else elements data key);
          dl = (if updated delta \<noteq> [] then apply_updated key (updated delta) (d1, [])
                else (d1, []));
          data2 = data\<lparr>elements := (elements data)(key := fst dl)\<rparr>
      in (prune_elements key (pruned delta) data2, snd dl))"

text \<open>
  \<^verbatim>\<open>apply_delta(WORKFLOW, delta, data)\<close>: the branches \<^verbatim>\<open>key == WORKFLOW\<close>. A \<^verbatim>\<open>WDeltas\<close>
  message has no \<^verbatim>\<open>pruned\<close> field, so the third phase is skipped.
\<close>

definition apply_delta_workflow :: "wdeltas \<Rightarrow> store \<Rightarrow> store" where
  "apply_delta_workflow delta data =
     (let data1 = (if ListFields (w_added delta) \<noteq> [] then data\<lparr>workflow := w_added delta\<rparr>
                   else data);
          field_set = fst ` set (ListFields (w_updated delta));
          cleared = fold (\<lambda>field m. if field \<in> field_set then ClearField field m else m)
                      (CLEAR_FIELD_MAP WORKFLOW) (workflow data1)
      in data1\<lparr>workflow := MergeFrom cleared (w_updated delta)\<rparr>)"

subsection \<open>Pruning of the edge points (\<^verbatim>\<open>increment_graph_elements\<close>, lines 807 to 818)\<close>

text \<open>
  The loop runs over a snapshot \<^verbatim>\<open>list(self.edge_points.items())\<close> and changes the
  dictionary while it runs. The cycle points are objects of a class that is not part of
  the sources; the model is polymorphic in their type and takes \<^verbatim>\<open>str\<close> as a
  parameter. The state of the loop is the pair of \<^verbatim>\<open>prune_points\<close> and
  \<^verbatim>\<open>self.edge_points\<close>.
\<close>

fun prune_entry ::
  "('p \<Rightarrow> string) \<Rightarrow> 'p set \<Rightarrow> 'p \<times> 'p set \<Rightarrow>
   string set \<times> ('p \<times> 'p set) list \<Rightarrow> string set \<times> ('p \<times> 'p set) list"
where
  "prune_entry str pool_points (s_point, t_points) (prune_points, edge_points) =
     (if s_point \<notin> pool_points \<and> t_points \<inter> pool_points = {}
      then (prune_points \<union> {str s_point} \<union> str ` t_points,
            AList.delete s_point edge_points)
      else
        (let t_diffs = t_points - pool_points in
         if t_diffs \<noteq> {}
         then (prune_points \<union> str ` t_diffs,
               AList.map_entry s_point (\<lambda>t. t - t_diffs) edge_points)
         else (prune_points, edge_points)))"

definition prune_edge_points ::
  "('p \<Rightarrow> string) \<Rightarrow> 'p set \<Rightarrow> ('p \<times> 'p set) list \<Rightarrow> string set \<times> ('p \<times> 'p set) list"
where
  "prune_edge_points str pool_points edge_points =
     fold (prune_entry str pool_points) edge_points ({}, edge_points)"

text \<open>What one entry contributes to \<^verbatim>\<open>prune_points\<close>, and whether it is dropped.\<close>

definition entry_dropped :: "'p set \<Rightarrow> 'p \<times> 'p set \<Rightarrow> bool" where
  "entry_dropped pool_points e = (fst e \<notin> pool_points \<and> snd e \<inter> pool_points = {})"

definition entry_pruned :: "('p \<Rightarrow> string) \<Rightarrow> 'p set \<Rightarrow> 'p \<times> 'p set \<Rightarrow> string set" where
  "entry_pruned str pool_points e =
     (if entry_dropped pool_points e then insert (str (fst e)) (str ` snd e)
      else str ` (snd e - pool_points))"

subsection \<open>The data-store manager and its collaborators\<close>

text \<open>
  The collaborators that are not part of the sources are parameters of the model: the
  wall clock (\<^verbatim>\<open>time()\<close> returns the readings \<open>clock env 0\<close>, \<open>clock env 1\<close>, ... one
  after the other), the rendering of a float and of a cycle point in an f-string, the
  constant \<^verbatim>\<open>ID_DELIM\<close> of \<^verbatim>\<open>cylc.flow\<close> (one character), \<^verbatim>\<open>extract_group_state\<close>,
  \<^verbatim>\<open>get_suite_status\<close> and the pool's \<^verbatim>\<open>get_max_point_runahead\<close>.
\<close>

record 'p env =
  clock :: "nat \<Rightarrow> real"
  str_float :: "real \<Rightarrow> string"
  str_point :: "'p \<Rightarrow> string"
  ID_DELIM :: char
  extract_group_state :: "string list \<Rightarrow> string"
  get_suite_status :: "string \<times> string"
  get_max_point_runahead :: "'p option"

text \<open>
  The attributes of \<^verbatim>\<open>DataStoreMgr\<close> that the embedded methods use. \<open>self_data\<close> is
  \<^verbatim>\<open>self.data[self.workflow_id]\<close>; \<open>self_added\<close> and \<open>self_updated\<close> are
  \<^verbatim>\<open>self.added\<close> and \<^verbatim>\<open>self.updated\<close>; \<open>self_deltas\<close> and \<open>self_wdeltas\<close>
  are \<^verbatim>\<open>self.deltas\<close> (the slot \<open>self_deltas s WORKFLOW\<close> stands for nothing; the
  workflow's delta is \<open>self_wdeltas\<close>); the three \<open>job_pool\<close> fields are the attributes of
  \<^verbatim>\<open>self.schd.job_pool\<close> that \<^verbatim>\<open>apply_deltas\<close> reads and clears; \<open>time_calls\<close> counts
  the calls of \<^verbatim>\<open>time()\<close> so far.
\<close>

record 'p mgr =
  workflow_id :: string
  ancestors :: "(string \<times> string list) list"
  min_point :: "'p option"
  max_point :: "'p option"
  state_update_families :: "ident set"
  updated_state_families :: "ident set"
  self_data :: store
  self_added :: store
  self_updated :: store
  self_deltas :: "kind \<Rightarrow> deltas"
  self_wdeltas :: wdeltas
  updates_pending :: bool
  job_pool_added :: "(ident \<times> msg) list"
  job_pool_updated :: "(ident \<times> msg) list"
  job_pool_deltas :: deltas
  time_calls :: nat

definition time_now :: "'p env \<Rightarrow> 'p mgr \<Rightarrow> real" where
  "time_now env s = clock env (time_calls s)"

definition tick :: "'p mgr \<Rightarrow> 'p mgr" where
  "tick s = s\<lparr>time_calls := Suc (time_calls s)\<rparr>"

definition stamp_of :: "'p env \<Rightarrow> ident \<Rightarrow> real \<Rightarrow> string" where
  "stamp_of env i t = i @ ''@'' @ str_float env t"

text \<open>A message built by a constructor call with keyword arguments.\<close>

definition new_msg :: "(string \<times> fval) list \<Rightarrow> msg" where
  "new_msg kvs = fold (\<lambda>(f, v). set_field f v) kvs []"

definition append_rep :: "string \<Rightarrow> string \<Rightarrow> msg \<Rightarrow> msg" where
  "append_rep f x m = set_field f (VRep (get_rep m f @ [x])) m"

definition extend_rep :: "string \<Rightarrow> string list \<Rightarrow> msg \<Rightarrow> msg" where
  "extend_rep f xs m = set_field f (VRep (get_rep m f @ xs)) m"

definition setdefault :: "'k \<Rightarrow> 'v \<Rightarrow> ('k \<times> 'v) list \<Rightarrow> ('k \<times> 'v) list" where
  "setdefault k v d = (case map_of d k of None \<Rightarrow> AList.update k v d | Some _ \<Rightarrow> d)"

definition keys :: "('k \<times> 'v) list \<Rightarrow> 'k set" where
  "keys d = fst ` set d"

definition put_elements :: "kind \<Rightarrow> (ident \<times> msg) list \<Rightarrow> store \<Rightarrow> store" where
  "put_elements k d st = st\<lparr>elements := (elements st)(k := d)\<rparr>"

text \<open>\<^verbatim>\<open>str.split(sep)\<close> for a separator of one character.\<close>

fun split :: "char \<Rightarrow> string \<Rightarrow> string list" where
  "split d [] = [[]]"
| "split d (c # cs) =
     (if c = d then [] # split d cs
      else (case split d cs of w # ws \<Rightarrow> (c # w) # ws | [] \<Rightarrow> [[c]]))"

subsection \<open>Ghost nodes: \<^verbatim>\<open>generate_ghost_task\<close> and \<^verbatim>\<open>generate_ghost_family\<close>\<close>

text \<open>
  The last lines of \<^verbatim>\<open>generate_ghost_family\<close>: the child is appended to \<^verbatim>\<open>fp_parent\<close>,
  which is the entry of \<open>fp_id\<close> in \<^verbatim>\<open>self.updated[FAMILY_PROXIES]\<close> (when the family
  proxy is in the store) or in \<^verbatim>\<open>self.added[FAMILY_PROXIES]\<close>. Appending \<^verbatim>\<open>None\<close> to a
  repeated string field raises \<^verbatim>\<open>TypeError\<close>.
\<close>

definition add_child_to :: "ident option \<Rightarrow> ident option \<Rightarrow> msg \<Rightarrow> msg option" where
  "add_child_to child_fam child_task fp_parent =
     (case child_fam of
        None \<Rightarrow> (case child_task of
                   None \<Rightarrow> None
                 | Some t \<Rightarrow> Some (append_rep ''child_tasks'' t fp_parent))
      | Some c \<Rightarrow>
          (if c \<notin> set (get_rep fp_parent ''child_families'')
           then Some (append_rep ''child_families'' c fp_parent)
           else Some fp_parent))"

definition add_child ::
  "bool \<Rightarrow> ident \<Rightarrow> ident option \<Rightarrow> ident option \<Rightarrow> 'p mgr \<Rightarrow> 'p mgr outcome"
where
  "add_child in_updated fp_id child_fam child_task s =
     (let buf = (if in_updated then self_updated s else self_added s) in
      case map_of (elements buf FAMILY_PROXIES) fp_id of
        None \<Rightarrow> Raised KeyError s
      | Some fp_parent \<Rightarrow>
          (case add_child_to child_fam child_task fp_parent of
             None \<Rightarrow> Raised TypeError s
           | Some fp_parent' \<Rightarrow>
               (let buf' = put_elements FAMILY_PROXIES
                             (AList.update fp_id fp_parent' (elements buf FAMILY_PROXIES)) buf
                in Returned (if in_updated then s\<lparr>self_updated := buf'\<rparr>
                             else s\<lparr>self_added := buf'\<rparr>))))"

text \<open>
  The family proxy that the last branch of \<^verbatim>\<open>generate_ghost_family\<close> creates, and the
  state after it is recorded in \<^verbatim>\<open>self.added\<close> and referred to from the family
  definition and the workflow in \<^verbatim>\<open>self.updated\<close>.
\<close>

definition proxy_ancestors :: "'p env \<Rightarrow> string \<Rightarrow> string \<Rightarrow> string \<Rightarrow> string list \<Rightarrow> string list" where
  "proxy_ancestors env wid point_string name names =
     map (\<lambda>a_name. wid @ [ID_DELIM env] @ point_string @ [ID_DELIM env] @ a_name)
       (filter (\<lambda>a_name. a_name \<noteq> name) names)"

definition new_family_proxy ::
  "'p env \<Rightarrow> real \<Rightarrow> ident \<Rightarrow> string \<Rightarrow> msg \<Rightarrow> string list \<Rightarrow> msg"
where
  "new_family_proxy env update_time fp_id point_string fam fp_ancestors =
     (let fp_delta = new_msg
            [(''stamp'', VStr (stamp_of env fp_id update_time)),
             (''id'', VStr fp_id),
             (''cycle_point'', VStr point_string),
             (''name'', VStr (get_str fam ''name'')),
             (''family'', VStr (get_str fam ''id'')),
             (''depth'', VInt (get_int fam ''depth''))];
          fp_delta = set_field ''ancestors'' (VRep fp_ancestors) fp_delta
      in if fp_ancestors \<noteq> [] then set_field ''first_parent'' (VStr (hd fp_ancestors)) fp_delta
         else fp_delta)"

definition record_family_proxy ::
  "'p env \<Rightarrow> real \<Rightarrow> ident \<Rightarrow> msg \<Rightarrow> msg \<Rightarrow> 'p mgr \<Rightarrow> 'p mgr"
where
  "record_family_proxy env update_time fp_id fam fp_delta s =
     (let fam_id = get_str fam ''id'';
          s1 = s\<lparr>self_added := put_elements FAMILY_PROXIES
                  (AList.update fp_id fp_delta (elements (self_added s) FAMILY_PROXIES))
                  (self_added s)\<rparr>;
          f_delta = append_rep ''proxies'' fp_id
                      (new_msg [(''id'', VStr fam_id),
                                (''stamp'', VStr (stamp_of env fam_id update_time))]);
          fs = setdefault fam_id (new_msg [(''id'', VStr fam_id)])
                 (elements (self_updated s1) FAMILIES);
          fs = AList.map_entry fam_id (\<lambda>m. MergeFrom m f_delta) fs;
          s2 = s1\<lparr>self_updated := put_elements FAMILIES fs (self_updated s1)\<rparr>
      in s2\<lparr>self_updated := (self_updated s2)
              \<lparr>workflow := append_rep ''family_proxies'' fp_id (workflow (self_updated s2))\<rparr>\<rparr>)"

text \<open>
  The look-ups at the start of the last branch, none of which changes the manager:
  \<^verbatim>\<open>fp_id.split(ID_DELIM)\<close> must give four parts (\<^verbatim>\<open>ValueError\<close> otherwise), the family
  definition is looked up in \<^verbatim>\<open>families\<close> and its ancestors in \<^verbatim>\<open>self.ancestors\<close>
  (\<^verbatim>\<open>KeyError\<close>). The result is the cycle point, the family definition and its ancestors.
\<close>

definition lookup_family ::
  "'p env \<Rightarrow> 'p mgr \<Rightarrow> ident \<Rightarrow> exc + (string \<times> msg \<times> string list)"
where
  "lookup_family env s fp_id =
     (let families = (if elements (self_data s) FAMILIES = [] then elements (self_added s) FAMILIES
                      else elements (self_data s) FAMILIES)
      in case split (ID_DELIM env) fp_id of
           [_, _, point_string, name] \<Rightarrow>
             (case map_of families (workflow_id s @ [ID_DELIM env] @ name) of
                None \<Rightarrow> Inl KeyError
              | Some fam \<Rightarrow>
                  (case map_of (ancestors s) (get_str fam ''name'') of
                     None \<Rightarrow> Inl KeyError
                   | Some names \<Rightarrow> Inr (point_string, fam, names)))
         | _ \<Rightarrow> Inl ValueError)"

text \<open>
  \<^verbatim>\<open>generate_ghost_family\<close> calls itself for the first parent. The first argument is the
  depth of recursion that the interpreter still allows; at depth zero the call raises
  \<^verbatim>\<open>RecursionError\<close>.
\<close>

primrec generate_ghost_family ::
  "nat \<Rightarrow> 'p env \<Rightarrow> ident \<Rightarrow> ident option \<Rightarrow> ident option \<Rightarrow> 'p mgr \<Rightarrow> 'p mgr outcome"
where
  "generate_ghost_family 0 env fp_id child_fam child_task s = Raised RecursionError s"
| "generate_ghost_family (Suc depth) env fp_id child_fam child_task s0 =
     (let update_time = time_now env s0;
          s = tick s0
      in if fp_id \<in> keys (elements (self_data s) FAMILY_PROXIES)
         then add_child True fp_id child_fam child_task
                (s\<lparr>self_updated := put_elements FAMILY_PROXIES
                      (setdefault fp_id (new_msg [(''id'', VStr fp_id)])
                         (elements (self_updated s) FAMILY_PROXIES))
                      (self_updated s)\<rparr>)
         else if fp_id \<in> keys (elements (self_added s) FAMILY_PROXIES)
         then add_child False fp_id child_fam child_task s
         else
           (case lookup_family env s fp_id of
              Inl e \<Rightarrow> Raised e s
            | Inr (point_string, fam, names) \<Rightarrow>
                (let fp_delta = new_family_proxy env update_time fp_id point_string fam
                       (proxy_ancestors env (workflow_id s) point_string
                          (get_str fam ''name'') names);
                     s1 = record_family_proxy env update_time fp_id fam fp_delta s
                 in if get_str fp_delta ''first_parent'' \<noteq> []
                    then (case generate_ghost_family depth env
                                 (get_str fp_delta ''first_parent'') (Some fp_id) None s1 of
                            Raised e s' \<Rightarrow> Raised e s'
                          | Returned s' \<Rightarrow> add_child False fp_id child_fam child_task s')
                    else add_child False fp_id child_fam child_task s1)))"

text \<open>
  \<^verbatim>\<open>generate_ghost_task\<close>. The look-up of the task definition gives \<^verbatim>\<open>None\<close> when the
  id is in neither dictionary, and reading \<^verbatim>\<open>taskdef.depth\<close> then raises
  \<^verbatim>\<open>AttributeError\<close>; \<^verbatim>\<open>self.ancestors[taskdef.name]\<close> raises \<^verbatim>\<open>KeyError\<close>, and
  \<^verbatim>\<open>tproxy.ancestors[0]\<close> raises \<^verbatim>\<open>IndexError\<close> on an empty list. All three happen
  before the manager is changed. The result of the look-ups is the task definition and
  the ancestors of the proxy.
\<close>

definition lookup_task ::
  "'p env \<Rightarrow> 'p mgr \<Rightarrow> ident \<Rightarrow> string \<Rightarrow> exc + (msg \<times> string list)"
where
  "lookup_task env s t_id point_string =
     (case (case map_of (elements (self_data s) TASKS) t_id of
              Some td \<Rightarrow> Some td
            | None \<Rightarrow> map_of (elements (self_added s) TASKS) t_id) of
        None \<Rightarrow> Inl AttributeError
      | Some taskdef \<Rightarrow>
          (case map_of (ancestors s) (get_str taskdef ''name'') of
             None \<Rightarrow> Inl KeyError
           | Some names \<Rightarrow>
               (let tp_ancestors = proxy_ancestors env (workflow_id s) point_string
                                     (get_str taskdef ''name'') names
                in if tp_ancestors = [] then Inl IndexError
                   else Inr (taskdef, tp_ancestors))))"

definition new_task_proxy ::
  "'p env \<Rightarrow> real \<Rightarrow> ident \<Rightarrow> ident \<Rightarrow> string \<Rightarrow> msg \<Rightarrow> string list \<Rightarrow> msg"
where
  "new_task_proxy env update_time t_id tp_id point_string taskdef tp_ancestors =
     (let tproxy = new_msg
            [(''stamp'', VStr (stamp_of env tp_id update_time)),
             (''id'', VStr tp_id),
             (''task'', VStr t_id),
             (''cycle_point'', VStr point_string),
             (''depth'', VInt (get_int taskdef ''depth'')),
             (''name'', VStr (get_str taskdef ''name''))];
          tproxy = set_field ''namespace'' (VRep (get_rep taskdef ''namespace'')) tproxy;
          tproxy = set_field ''ancestors'' (VRep tp_ancestors) tproxy
      in set_field ''first_parent'' (VStr (hd tp_ancestors)) tproxy)"

text \<open>
  Lines 579 to 587: the proxy is put into \<^verbatim>\<open>self.added\<close>, and its id is appended to the
  workflow's and to the task definition's list in \<^verbatim>\<open>self.updated\<close>.
\<close>

definition record_task_proxy ::
  "'p env \<Rightarrow> real \<Rightarrow> ident \<Rightarrow> ident \<Rightarrow> msg \<Rightarrow> 'p mgr \<Rightarrow> 'p mgr"
where
  "record_task_proxy env update_time t_id tp_id tproxy s =
     (let s1 = s\<lparr>self_added := put_elements TASK_PROXIES
                   (AList.update tp_id tproxy (elements (self_added s) TASK_PROXIES))
                   (self_added s)\<rparr>;
          s2 = s1\<lparr>self_updated := (self_updated s1)
                   \<lparr>workflow := append_rep ''task_proxies'' tp_id (workflow (self_updated s1))\<rparr>\<rparr>;
          ts = setdefault t_id
                 (new_msg [(''stamp'', VStr (stamp_of env t_id update_time)), (''id'', VStr t_id)])
                 (elements (self_updated s2) TASKS);
          ts = AList.map_entry t_id (append_rep ''proxies'' tp_id) ts
      in s2\<lparr>self_updated := put_elements TASKS ts (self_updated s2)\<rparr>)"

definition generate_ghost_task ::
  "nat \<Rightarrow> 'p env \<Rightarrow> ident \<Rightarrow> ident \<Rightarrow> string \<Rightarrow> 'p mgr \<Rightarrow> 'p mgr outcome"
where
  "generate_ghost_task depth env t_id tp_id point_string s0 =
     (if tp_id \<in> keys (elements (self_data s0) TASK_PROXIES)
         \<or> tp_id \<in> keys (elements (self_added s0) TASK_PROXIES)
      then Returned s0
      else
        (let update_time = time_now env s0;
             s = tick s0
         in case lookup_task env s t_id point_string of
              Inl e \<Rightarrow> Raised e s
            | Inr (taskdef, tp_ancestors) \<Rightarrow>
                (let tproxy = new_task_proxy env update_time t_id tp_id point_string
                                taskdef tp_ancestors;
                     s1 = record_task_proxy env update_time t_id tp_id tproxy s
                 in if depth = 0 then Raised RecursionError s1
                    else generate_ghost_family (depth - 1) env
                           (get_str tproxy ''first_parent'') None (Some tp_id) s1)))"

text \<open>
  What a call of the ghost generators may change, from the state \<open>s\<close> before to the
  state \<open>r\<close> after: the store stays as it is, the added buffer loses no id, and an id
  that is new in the added buffer of some kind is not an id of that kind in the store.
\<close>

definition ghost_frame :: "'p mgr \<Rightarrow> 'p mgr \<Rightarrow> bool" where
  "ghost_frame s r =
     (self_data r = self_data s
      \<and> (\<forall>k. keys (elements (self_added s) k) \<subseteq> keys (elements (self_added r) k))
      \<and> (\<forall>k i. i \<in> keys (elements (self_added r) k) \<longrightarrow> i \<notin> keys (elements (self_added s) k)
             \<longrightarrow> i \<notin> keys (elements (self_data s) k)))"

definition added_disjoint :: "'p mgr \<Rightarrow> kind \<Rightarrow> bool" where
  "added_disjoint s k = (keys (elements (self_added s) k) \<inter> keys (elements (self_data s) k) = {})"

subsection \<open>\<^verbatim>\<open>collections.Counter\<close>\<close>

text \<open>
  A counter is a dictionary from elements to counts; a missing element counts zero.
  \<^verbatim>\<open>c += other\<close> adds the counts of \<open>other\<close> one by one and then drops every entry
  whose count is not positive.
\<close>

type_synonym counter = "(string \<times> int) list"

definition count_of :: "counter \<Rightarrow> string \<Rightarrow> int" where
  "count_of c x = (case map_of c x of None \<Rightarrow> 0 | Some n \<Rightarrow> n)"

definition counter_add :: "string \<times> int \<Rightarrow> counter \<Rightarrow> counter" where
  "counter_add en c = AList.update (fst en) (count_of c (fst en) + snd en) c"

definition keep_positive :: "counter \<Rightarrow> counter" where
  "keep_positive c = filter (\<lambda>en. 0 < snd en) c"

definition counter_iadd :: "counter \<Rightarrow> counter \<Rightarrow> counter" where
  "counter_iadd c other = keep_positive (fold counter_add other c)"

definition Counter :: "string list \<Rightarrow> counter" where
  "Counter xs = fold (\<lambda>x. counter_add (x, 1)) xs []"

subsection \<open>Family roll-up: \<^verbatim>\<open>_family_ascent_point_update\<close>\<close>

text \<open>
  \<^verbatim>\<open>d.get(key, other.get(key))\<close>: the most recent view of a node, the entry of
  \<^verbatim>\<open>self.updated\<close> when there is one and the entry of the store otherwise.
\<close>

definition get_view :: "(ident \<times> msg) list \<Rightarrow> (ident \<times> msg) list \<Rightarrow> ident \<Rightarrow> msg option" where
  "get_view upd st i = (case map_of upd i of Some node \<Rightarrow> Some node | None \<Rightarrow> map_of st i)"

text \<open>
  The two loops of lines 1003 to 1018: the first over the child families, on the pair of
  \<^verbatim>\<open>state_counter\<close> and \<^verbatim>\<open>is_held_total\<close>, the second over the child tasks, on the
  pair of \<^verbatim>\<open>task_states\<close> and \<^verbatim>\<open>is_held_total\<close>.
\<close>

definition count_child_family ::
  "(ident \<times> msg) list \<Rightarrow> (ident \<times> msg) list \<Rightarrow> ident \<Rightarrow> counter \<times> int \<Rightarrow> counter \<times> int"
where
  "count_child_family fp_updated fp_data child_id acc =
     (case get_view fp_updated fp_data child_id of
        None \<Rightarrow> acc
      | Some child_node \<Rightarrow>
          (counter_iadd (fst acc) (get_map child_node ''state_totals''),
           snd acc + get_int child_node ''is_held_total''))"

definition count_child_task ::
  "(ident \<times> msg) list \<Rightarrow> (ident \<times> msg) list \<Rightarrow> ident \<Rightarrow> string list \<times> int \<Rightarrow> string list \<times> int"
where
  "count_child_task tp_updated tp_data tp_id acc =
     (case get_view tp_updated tp_data tp_id of
        None \<Rightarrow> acc
      | Some tp_node \<Rightarrow>
          ((if get_str tp_node ''state'' \<noteq> [] then fst acc @ [get_str tp_node ''state'']
            else fst acc),
           (if get_bool tp_node ''is_held'' then snd acc + 1 else snd acc)))"

definition child_counts :: "'p mgr \<Rightarrow> msg \<Rightarrow> counter \<times> int" where
  "child_counts s fam_node =
     (let fams = fold (count_child_family (elements (self_updated s) FAMILY_PROXIES)
                         (elements (self_data s) FAMILY_PROXIES))
                   (get_rep fam_node ''child_families'') ([], 0);
          tasks = fold (count_child_task (elements (self_updated s) TASK_PROXIES)
                          (elements (self_data s) TASK_PROXIES))
                    (get_rep fam_node ''child_tasks'') ([], snd fams)
      in (counter_iadd (fst fams) (Counter (fst tasks)), snd tasks))"

text \<open>The message \<^verbatim>\<open>fp_delta\<close> of lines 1020 to 1029.\<close>

definition family_delta :: "'p env \<Rightarrow> 'p mgr \<Rightarrow> ident \<Rightarrow> msg \<Rightarrow> msg" where
  "family_delta env s fp_id fam_node =
     (let state_counter = fst (child_counts s fam_node);
          is_held_total = snd (child_counts s fam_node);
          fp_delta = new_msg
            [(''id'', VStr fp_id),
             (''stamp'', VStr (stamp_of env fp_id (time_now env s))),
             (''state'', VStr (extract_group_state env (map fst state_counter))),
             (''is_held'', VBool (0 < is_held_total)),
             (''is_held_total'', VInt is_held_total)];
          fp_delta = set_field ''states'' (VRep (map fst state_counter)) fp_delta
      in set_field ''state_totals''
           (VMap (fold (\<lambda>(state, state_cnt). AList.update state state_cnt) state_counter
                    (get_map fp_delta ''state_totals''))) fp_delta)"

text \<open>
  Lines 998 to 1036, for a family proxy that is flagged: the delta is merged into
  \<^verbatim>\<open>self.updated\<close>, the family is marked as updated, its first parent is flagged and
  the family's own flag is removed.
\<close>

definition family_update :: "'p env \<Rightarrow> ident \<Rightarrow> msg \<Rightarrow> 'p mgr \<Rightarrow> 'p mgr" where
  "family_update env fp_id fam_node s =
     (let fp_delta = family_delta env s fp_id fam_node;
          s1 = tick s;
          fps = setdefault fp_id [] (elements (self_updated s1) FAMILY_PROXIES);
          fps = AList.map_entry fp_id (\<lambda>m. MergeFrom m fp_delta) fps;
          s2 = s1\<lparr>self_updated := put_elements FAMILY_PROXIES fps (self_updated s1)\<rparr>;
          s3 = s2\<lparr>updated_state_families := insert fp_id (updated_state_families s2)\<rparr>;
          s4 = (if get_str fam_node ''first_parent'' \<noteq> []
                then s3\<lparr>state_update_families :=
                         insert (get_str fam_node ''first_parent'') (state_update_families s3)\<rparr>
                else s3)
      in s4\<lparr>state_update_families := state_update_families s4 - {fp_id}\<rparr>)"

text \<open>A loop whose body may raise stops at the first exception.\<close>

fun for_each :: "('a \<Rightarrow> 's \<Rightarrow> 's outcome) \<Rightarrow> 'a list \<Rightarrow> 's \<Rightarrow> 's outcome" where
  "for_each body [] s = Returned s"
| "for_each body (x # xs) s =
     (case body x s of Raised e s' \<Rightarrow> Raised e s' | Returned s' \<Rightarrow> for_each body xs s')"

text \<open>
  \<^verbatim>\<open>_family_ascent_point_update\<close>; the first argument is the depth of recursion that is
  left, as for \<^const>\<open>generate_ghost_family\<close>.
\<close>

primrec family_ascent_point_update :: "nat \<Rightarrow> 'p env \<Rightarrow> ident \<Rightarrow> 'p mgr \<Rightarrow> 'p mgr outcome" where
  "family_ascent_point_update 0 env fp_id s = Raised RecursionError s"
| "family_ascent_point_update (Suc depth) env fp_id s =
     (case (case map_of (elements (self_data s) FAMILY_PROXIES) fp_id of
              Some node \<Rightarrow> Some node
            | None \<Rightarrow> map_of (elements (self_added s) FAMILY_PROXIES) fp_id) of
        None \<Rightarrow> Raised KeyError s
      | Some fam_node \<Rightarrow>
          (let child_fam_nodes = filter (\<lambda>n_id. n_id \<notin> updated_state_families s)
                                   (get_rep fam_node ''child_families'')
           in case for_each (family_ascent_point_update depth env) child_fam_nodes s of
                Raised e s' \<Rightarrow> Raised e s'
              | Returned s' \<Rightarrow>
                  (if fp_id \<in> state_update_families s'
                   then Returned (family_update env fp_id fam_node s')
                   else Returned s')))"

subsection \<open>\<^verbatim>\<open>update_workflow\<close>\<close>

text \<open>
  The loop of lines 1052 to 1064 over the ids of the root family proxies. The set of the
  ids is run through in the order of first occurrence (the order in which Python runs
  through a set is not specified; only the order of the workflow's \<^verbatim>\<open>states\<close> depends
  on it). \<^verbatim>\<open>data\<close> is the dictionary of the whole store, whose keys are the names of
  the kinds, so \<^verbatim>\<open>data.get(root_id)\<close> is \<^verbatim>\<open>None\<close> unless the id is the name of a kind,
  and then it is a dictionary or the workflow message, neither of which has an attribute
  \<^verbatim>\<open>state\<close>.
\<close>

definition root_ids :: "'p mgr \<Rightarrow> ident list" where
  "root_ids s =
     remdups
       (map get_id (filter (\<lambda>n. get_str n ''name'' = ''root'')
                      (map snd (elements (self_data s) FAMILY_PROXIES))) @
        map get_id (filter (\<lambda>n. get_str n ''name'' = ''root'')
                      (map snd (elements (self_added s) FAMILY_PROXIES))))"

definition count_root :: "'p mgr \<Rightarrow> ident \<Rightarrow> counter \<times> int \<Rightarrow> (counter \<times> int) outcome" where
  "count_root s root_id acc =
     (case map_of (elements (self_updated s) FAMILY_PROXIES) root_id of
        Some root_node \<Rightarrow>
          (if get_str root_node ''state'' \<noteq> []
           then Returned (counter_iadd (fst acc) (get_map root_node ''state_totals''),
                          snd acc + get_int root_node ''is_held_total'')
           else Returned acc)
      | None \<Rightarrow>
          (if root_id \<in> set (map kind_name kinds) then Raised AttributeError acc
           else Returned acc))"

definition set_point :: "'p env \<Rightarrow> string \<Rightarrow> 'p option \<Rightarrow> msg \<Rightarrow> msg" where
  "set_point env key value w =
     (case value of None \<Rightarrow> w | Some p \<Rightarrow> set_field key (VStr (str_point env p)) w)"

definition update_workflow :: "'p env \<Rightarrow> 'p mgr \<Rightarrow> 'p mgr outcome" where
  "update_workflow env s0 =
     (let w = workflow (self_updated s0);
          w = set_field ''id'' (VStr (workflow_id s0)) w;
          w = set_field ''last_updated'' (VFloat (time_now env s0)) w;
          w = set_field ''stamp'' (VStr (stamp_of env (workflow_id s0) (time_now env s0))) w;
          s = (tick s0)\<lparr>self_updated := (self_updated s0)\<lparr>workflow := w\<rparr>\<rparr>
      in case for_each (count_root s) (root_ids s) ([], 0) of
           Raised e acc \<Rightarrow> Raised e s
         | Returned acc \<Rightarrow>
             (let w = set_field ''states'' (VRep (map fst (fst acc))) w;
                  w = set_field ''state_totals''
                        (VMap (fold (\<lambda>(state, state_cnt). AList.update state state_cnt) (fst acc)
                                 (get_map w ''state_totals''))) w;
                  w = set_field ''is_held_total'' (VInt (snd acc)) w;
                  w = set_field ''status'' (VStr (fst (get_suite_status env))) w;
                  w = set_field ''status_msg'' (VStr (snd (get_suite_status env))) w;
                  w = set_point env ''oldest_cycle_point'' (min_point s) w;
                  w = set_point env ''newest_cycle_point'' (max_point s) w;
                  w = set_point env ''newest_runahead_cycle_point'' (get_max_point_runahead env) w
              in Returned (s\<lparr>self_updated := (self_updated s)\<lparr>workflow := w\<rparr>\<rparr>)))"

subsection \<open>The checksum\<close>

text \<open>
  \<^verbatim>\<open>zlib.adler32\<close> is not part of the sources; it is the Adler-32 checksum of RFC 1950:
  two sums modulo 65521 over the bytes, the first starting at one, the second in the
  upper sixteen bits.
\<close>

definition adler32 :: "string \<Rightarrow> nat" where
  "adler32 bs =
     (let ab = fold (\<lambda>c (a, b). ((a + of_char c) mod 65521, (b + (a + of_char c) mod 65521) mod 65521))
                 bs (1, 0)
      in snd ab * 65536 + fst ab)"

definition generate_checksum :: "string list \<Rightarrow> nat" where
  "generate_checksum in_strings = adler32 (concat (sort in_strings)) mod 4294967296"

subsection \<open>\<^verbatim>\<open>clear_deltas\<close>, \<^verbatim>\<open>apply_deltas\<close>, \<^verbatim>\<open>get_publish_deltas\<close>, \<^verbatim>\<open>get_data_elements\<close>\<close>

definition clear_key :: "kind \<Rightarrow> 'p mgr \<Rightarrow> 'p mgr" where
  "clear_key key s =
     (if key = WORKFLOW
      then s\<lparr>self_wdeltas := empty_wdeltas,
             self_added := (self_added s)\<lparr>workflow := []\<rparr>,
             self_updated := (self_updated s)\<lparr>workflow := []\<rparr>\<rparr>
      else s\<lparr>self_deltas := (self_deltas s)(key := empty_deltas),
             self_added := put_elements key [] (self_added s),
             self_updated := put_elements key [] (self_updated s)\<rparr>)"

definition clear_deltas :: "'p mgr \<Rightarrow> 'p mgr" where
  "clear_deltas s = fold clear_key kinds s"

text \<open>
  \<^verbatim>\<open>apply_deltas\<close>, in its five steps: the job pool's deltas are copied in; the added and
  the updated elements are gathered into the delta messages; every delta that has a field
  set is applied to the store; every such delta is given the time and, when the message
  has the field, the checksum; the job pool's changes are cleared.
\<close>

definition copy_job_deltas :: "'p mgr \<Rightarrow> 'p mgr" where
  "copy_job_deltas s =
     (let s1 = s\<lparr>self_deltas := (self_deltas s)(JOBS := job_pool_deltas s),
                 self_added := put_elements JOBS (job_pool_added s) (self_added s),
                 self_updated := put_elements JOBS (job_pool_updated s) (self_updated s)\<rparr>
      in if elements (self_added s1) JOBS \<noteq> []
         then s1\<lparr>self_updated := (self_updated s1)
                 \<lparr>workflow := extend_rep ''jobs'' (map fst (elements (self_added s1) JOBS))
                                (workflow (self_updated s1))\<rparr>\<rparr>
         else s1)"

definition gather_added :: "kind \<Rightarrow> 'p mgr \<Rightarrow> 'p mgr" where
  "gather_added key s =
     (if key = WORKFLOW
      then (if ListFields (workflow (self_added s)) \<noteq> []
            then s\<lparr>self_wdeltas := (self_wdeltas s)\<lparr>w_added := workflow (self_added s)\<rparr>\<rparr>
            else s)
      else (if elements (self_added s) key \<noteq> []
            then s\<lparr>self_deltas := (self_deltas s)
                    (key := (self_deltas s key)
                       \<lparr>added := added (self_deltas s key) @ map snd (elements (self_added s) key)\<rparr>)\<rparr>
            else s))"

definition gather_updated :: "kind \<Rightarrow> 'p mgr \<Rightarrow> 'p mgr" where
  "gather_updated key s =
     (if key = WORKFLOW
      then (if ListFields (workflow (self_updated s)) \<noteq> []
            then s\<lparr>self_wdeltas := (self_wdeltas s)\<lparr>w_updated := workflow (self_updated s)\<rparr>\<rparr>
            else s)
      else (if elements (self_updated s) key \<noteq> []
            then s\<lparr>self_deltas := (self_deltas s)
                    (key := (self_deltas s key)
                       \<lparr>updated := updated (self_deltas s key)
                                     @ map snd (elements (self_updated s) key)\<rparr>)\<rparr>
            else s))"

text \<open>
  The third loop. The records that \<^verbatim>\<open>apply_delta\<close> writes to the log are collected
  beside the state.
\<close>

definition apply_key :: "bool \<Rightarrow> kind \<Rightarrow> 'p mgr \<times> log_record list \<Rightarrow> ('p mgr \<times> log_record list) outcome"
where
  "apply_key reloaded_arg key sl =
     (let s = fst sl in
      if key = WORKFLOW
      then (if wdeltas_set (self_wdeltas s)
            then (let delta = (self_wdeltas s)\<lparr>w_reloaded := reloaded_arg\<rparr>
                  in Returned (s\<lparr>self_wdeltas := delta,
                                  self_data := apply_delta_workflow delta (self_data s)\<rparr>, snd sl))
            else Returned sl)
      else (if deltas_set (self_deltas s key)
            then (let delta = (self_deltas s key)\<lparr>reloaded := reloaded_arg\<rparr>;
                      s1 = s\<lparr>self_deltas := (self_deltas s)(key := delta)\<rparr>;
                      r = apply_delta key delta (self_data s1)
                  in case fst r of
                       Raised e st \<Rightarrow> Raised e (s1\<lparr>self_data := st\<rparr>, snd sl @ snd r)
                     | Returned st \<Rightarrow> Returned (s1\<lparr>self_data := st\<rparr>, snd sl @ snd r))
            else Returned sl))"

definition checksum_strings :: "'p mgr \<Rightarrow> kind \<Rightarrow> string list" where
  "checksum_strings s key =
     map (\<lambda>e. get_str e (if key = EDGES then ''id'' else ''stamp''))
       (map snd (elements (self_data s) key))"

definition stamp_key :: "real \<Rightarrow> kind \<Rightarrow> 'p mgr \<Rightarrow> 'p mgr" where
  "stamp_key update_time key s =
     (if key = WORKFLOW
      then (if wdeltas_set (self_wdeltas s)
            then s\<lparr>self_wdeltas := (self_wdeltas s)\<lparr>w_time := update_time\<rparr>\<rparr>
            else s)
      else (if deltas_set (self_deltas s key)
            then s\<lparr>self_deltas := (self_deltas s)
                    (key := (self_deltas s key)
                       \<lparr>time := update_time,
                        checksum := generate_checksum (checksum_strings s key)\<rparr>)\<rparr>
            else s))"

definition clear_job_pool :: "'p mgr \<Rightarrow> 'p mgr" where
  "clear_job_pool s =
     s\<lparr>job_pool_deltas := empty_deltas, job_pool_added := [], job_pool_updated := []\<rparr>"

definition apply_deltas :: "'p env \<Rightarrow> bool \<Rightarrow> 'p mgr \<Rightarrow> ('p mgr \<times> log_record list) outcome" where
  "apply_deltas env reloaded_arg s0 =
     (let s1 = copy_job_deltas s0;
          s2 = fold gather_added kinds s1;
          s3 = fold gather_updated kinds s2
      in case for_each (apply_key reloaded_arg) kinds (s3, []) of
           Raised e sl \<Rightarrow> Raised e sl
         | Returned sl \<Rightarrow>
             (let update_time = time_now env (fst sl);
                  s4 = fold (stamp_key update_time) kinds (tick (fst sl))
              in Returned (clear_job_pool s4, snd sl)))"

text \<open>
  The bundle of \<^verbatim>\<open>get_publish_deltas\<close>: a triple for every delta that has a field set,
  and last the triple of the \<^verbatim>\<open>AllDeltas\<close> message, which is modelled by the list of its
  fields that are set, each with the delta copied into it.
\<close>

datatype delta_msg = Deltas deltas | WDeltas wdeltas

datatype payload = One delta_msg | AllDeltas "(kind \<times> delta_msg) list"

definition delta_of :: "'p mgr \<Rightarrow> kind \<Rightarrow> delta_msg" where
  "delta_of s key = (if key = WORKFLOW then WDeltas (self_wdeltas s) else Deltas (self_deltas s key))"

definition delta_is_set :: "'p mgr \<Rightarrow> kind \<Rightarrow> bool" where
  "delta_is_set s key =
     (if key = WORKFLOW then wdeltas_set (self_wdeltas s) else deltas_set (self_deltas s key))"

definition publish_key ::
  "'p mgr \<Rightarrow> kind \<Rightarrow> (string \<times> payload \<times> string) list \<times> (kind \<times> delta_msg) list \<Rightarrow>
   (string \<times> payload \<times> string) list \<times> (kind \<times> delta_msg) list"
where
  "publish_key s key ra =
     (if delta_is_set s key
      then (fst ra @ [(kind_name key, One (delta_of s key), ''SerializeToString'')],
            AList.update key (delta_of s key) (snd ra))
      else ra)"

definition get_publish_deltas :: "'p mgr \<Rightarrow> (string \<times> payload \<times> string) list" where
  "get_publish_deltas s =
     (let ra = fold (publish_key s) kinds ([], [])
      in fst ra @ [(ALL_DELTAS, AllDeltas (snd ra), ''SerializeToString'')])"

text \<open>
  \<^verbatim>\<open>get_data_elements\<close>. The keys of \<^verbatim>\<open>DELTAS_MAP\<close> are the names of the seven kinds and
  \<^verbatim>\<open>all\<close>. For \<^verbatim>\<open>all\<close> the message is an \<^verbatim>\<open>AllDeltas\<close>, which has a field for each kind and
  no field \<^verbatim>\<open>time\<close>, so the assignment to \<^verbatim>\<open>pb_msg.time\<close> raises \<^verbatim>\<open>AttributeError\<close>
  (and \<^verbatim>\<open>data[element_type]\<close> two lines later could only raise \<^verbatim>\<open>KeyError\<close>, the store
  having no key \<^verbatim>\<open>all\<close>).
\<close>

definition DELTAS_MAP_keys :: "string list" where
  "DELTAS_MAP_keys = map kind_name kinds @ [ALL_DELTAS]"

definition kind_of_name :: "string \<Rightarrow> kind option" where
  "kind_of_name n = map_of (map (\<lambda>k. (kind_name k, k)) kinds) n"

definition get_float :: "msg \<Rightarrow> string \<Rightarrow> real" where
  "get_float m f = (case map_of m f of Some (VFloat x) \<Rightarrow> x | _ \<Rightarrow> 0)"

definition get_data_elements :: "'p mgr \<Rightarrow> string \<Rightarrow> exc + delta_msg" where
  "get_data_elements s element_type =
     (if element_type \<notin> set DELTAS_MAP_keys then Inr (WDeltas empty_wdeltas)
      else (case kind_of_name element_type of
              None \<Rightarrow> Inl AttributeError
            | Some key \<Rightarrow>
                (if key = WORKFLOW
                 then Inr (WDeltas (empty_wdeltas
                        \<lparr>w_time := get_float (workflow (self_data s)) ''last_updated'',
                         w_added := workflow (self_data s)\<rparr>))
                 else Inr (Deltas (empty_deltas
                        \<lparr>time := get_float (workflow (self_data s)) ''last_updated'',
                         added := map snd (elements (self_data s) key)\<rparr>)))))"

text \<open>
  What \<^verbatim>\<open>getattr(self.deltas[key], 'checksum', None)\<close> gives: the workflow's delta message
  has no such field.
\<close>

definition delta_checksum :: "'p mgr \<Rightarrow> kind \<Rightarrow> nat option" where
  "delta_checksum s key = (if key = WORKFLOW then None else Some (checksum (self_deltas s key)))"

subsection \<open>\<^verbatim>\<open>__init__\<close> and concrete inputs\<close>

text \<open>
  The attributes as \<^verbatim>\<open>__init__\<close> sets them; the job pool starts empty and the clock has
  not been read.
\<close>

definition init :: "'p env \<Rightarrow> string \<Rightarrow> string \<Rightarrow> 'p mgr" where
  "init env owner suite =
     \<lparr>workflow_id = owner @ [ID_DELIM env] @ suite,
      ancestors = [],
      min_point = None,
      max_point = None,
      state_update_families = {},
      updated_state_families = {},
      self_data = DATA_TEMPLATE,
      self_added = DATA_TEMPLATE,
      self_updated = DATA_TEMPLATE,
      self_deltas = (\<lambda>k. empty_deltas),
      self_wdeltas = empty_wdeltas,
      updates_pending = False,
      job_pool_added = [],
      job_pool_updated = [],
      job_pool_deltas = empty_deltas,
      time_calls = 0\<rparr>"

text \<open>
  An environment with integer cycle points, and a manager of the workflow \<^verbatim>\<open>w\<close> of the
  user \<^verbatim>\<open>u\<close> that holds what \<^verbatim>\<open>generate_definition_elements\<close> leaves for one task
  \<^verbatim>\<open>a\<close> under the root family.
\<close>

definition sample_env :: "nat env" where
  "sample_env =
     \<lparr>clock = (\<lambda>n. 1 + real n),
      str_float = (\<lambda>x. ''1.0''),
      str_point = (\<lambda>p. replicate p (CHR ''I'')),
      ID_DELIM = CHR ''|'',
      extract_group_state = (\<lambda>states. case states of [] \<Rightarrow> [] | x # _ \<Rightarrow> x),
      get_suite_status = (''running'', ''running''),
      get_max_point_runahead = None\<rparr>"

definition sample_mgr :: "nat mgr" where
  "sample_mgr =
     (init sample_env ''u'' ''w'')
       \<lparr>ancestors := [(''a'', [''a'', ''root'']), (''root'', [''root''])],
        self_added := put_elements TASKS
            [(''u|w|a'', [(''id'', VStr ''u|w|a''), (''name'', VStr ''a''), (''depth'', VInt 1)])]
          (put_elements FAMILIES
            [(''u|w|root'', [(''id'', VStr ''u|w|root''), (''name'', VStr ''root'')])]
            DATA_TEMPLATE)\<rparr>"

section \<open>The pruning of the edge points\<close>

lemma prune_entry_drop:
  "s \<notin> P \<Longrightarrow> t \<inter> P = {} \<Longrightarrow>
   prune_entry str P (s, t) (pr, ep) = (pr \<union> {str s} \<union> str ` t, AList.delete s ep)"
  by simp

lemma prune_entry_trim:
  "\<not> (s \<notin> P \<and> t \<inter> P = {}) \<Longrightarrow> t - P \<noteq> {} \<Longrightarrow>
   prune_entry str P (s, t) (pr, ep) =
     (pr \<union> str ` (t - P), AList.map_entry s (\<lambda>u. u - (t - P)) ep)"
  by (auto simp: Let_def)

lemma prune_entry_keep:
  "\<not> (s \<notin> P \<and> t \<inter> P = {}) \<Longrightarrow> t - P = {} \<Longrightarrow>
   prune_entry str P (s, t) (pr, ep) = (pr, ep)"
  by (auto simp: Let_def)

lemma prune_entry_fst:
  "fst (prune_entry str P e (pr, ep)) = pr \<union> entry_pruned str P e"
  by (cases e) (auto simp: entry_pruned_def entry_dropped_def Let_def)

lemma prune_entry_map_of:
  "map_of (snd (prune_entry str P e (pr, ep))) k =
     (if k = fst e
      then (if entry_dropped P e then None
            else map_option (\<lambda>u. u - (snd e - P)) (map_of ep k))
      else map_of ep k)"
proof (cases e)
  case (Pair s t)
  show ?thesis
  proof (cases "s \<notin> P \<and> t \<inter> P = {}")
    case True
    then show ?thesis
      unfolding Pair by (simp add: prune_entry_drop entry_dropped_def AList.delete_conv' del: prune_entry.simps)
  next
    case False
    show ?thesis
    proof (cases "t - P = {}")
      case True
      have "map_option (\<lambda>u. u - (t - P)) x = x" for x :: "'a set option"
        unfolding True by (simp add: option.map_ident)
      then show ?thesis
        unfolding Pair prune_entry_keep[OF False True] using False
        by (auto simp: entry_dropped_def)
    next
      case nonempty: False
      show ?thesis
        unfolding Pair prune_entry_trim[OF False nonempty] using False
        by (auto simp: entry_dropped_def AList.map_of_map_entry split: option.splits)
    qed
  qed
qed

lemma prune_fold:
  assumes "distinct (map fst todo)"
    and "\<forall>(s, t) \<in> set todo. map_of ep s = Some t"
  shows "fst (fold (prune_entry str P) todo (pr, ep)) = pr \<union> (\<Union>e \<in> set todo. entry_pruned str P e)
    \<and> (\<forall>k. k \<notin> fst ` set todo \<longrightarrow>
           map_of (snd (fold (prune_entry str P) todo (pr, ep))) k = map_of ep k)
    \<and> (\<forall>(s, t) \<in> set todo.
           map_of (snd (fold (prune_entry str P) todo (pr, ep))) s =
             (if entry_dropped P (s, t) then None else Some (t \<inter> P)))"
  using assms
proof (induction todo arbitrary: pr ep)
  case Nil
  show ?case by simp
next
  case (Cons e todo)
  obtain s t where e: "e = (s, t)" by (cases e)
  define pr' where "pr' = fst (prune_entry str P e (pr, ep))"
  define ep' where "ep' = snd (prune_entry str P e (pr, ep))"
  have step: "prune_entry str P e (pr, ep) = (pr', ep')"
    by (simp add: pr'_def ep'_def)
  from Cons.prems have d: "distinct (map fst todo)" by simp
  from Cons.prems have here: "map_of ep s = Some t" by (simp add: e)
  from Cons.prems have snot: "s \<notin> fst ` set todo" by (auto simp: e)
  have ep'_other: "map_of ep' k = map_of ep k" if "k \<noteq> s" for k
    unfolding ep'_def prune_entry_map_of using that by (simp add: e)
  have head: "map_of ep' s = (if entry_dropped P (s, t) then None else Some (t \<inter> P))"
    unfolding ep'_def prune_entry_map_of using here by (auto simp: e)
  have rest: "\<forall>(s', t') \<in> set todo. map_of ep' s' = Some t'"
  proof (clarify)
    fix s' t' assume m: "(s', t') \<in> set todo"
    then have "s' \<noteq> s" using snot by force
    moreover from Cons.prems m have "map_of ep s' = Some t'" by auto
    ultimately show "map_of ep' s' = Some t'" by (simp add: ep'_other)
  qed
  note ih = Cons.IH[OF d rest, of pr']
  have pr'_eq: "pr' = pr \<union> entry_pruned str P e"
    by (simp add: pr'_def prune_entry_fst)
  have 1: "fst (fold (prune_entry str P) (e # todo) (pr, ep)) =
           pr \<union> (\<Union>e \<in> set (e # todo). entry_pruned str P e)"
    using ih by (simp add: step pr'_eq Un_assoc)
  have 2: "\<forall>k. k \<notin> fst ` set (e # todo) \<longrightarrow>
           map_of (snd (fold (prune_entry str P) (e # todo) (pr, ep))) k = map_of ep k"
  proof (intro allI impI)
    fix k assume k: "k \<notin> fst ` set (e # todo)"
    then have "k \<noteq> s" and "k \<notin> fst ` set todo" by (auto simp: e)
    then show "map_of (snd (fold (prune_entry str P) (e # todo) (pr, ep))) k = map_of ep k"
      using ih ep'_other by (simp add: step)
  qed
  have 3: "\<forall>(s', t') \<in> set (e # todo).
           map_of (snd (fold (prune_entry str P) (e # todo) (pr, ep))) s' =
             (if entry_dropped P (s', t') then None else Some (t' \<inter> P))"
  proof (clarify)
    fix s' t' assume m: "(s', t') \<in> set (e # todo)"
    show "map_of (snd (fold (prune_entry str P) (e # todo) (pr, ep))) s' =
           (if entry_dropped P (s', t') then None else Some (t' \<inter> P))"
    proof (cases "(s', t') = e")
      case True
      then have "s' = s" "t' = t" by (simp_all add: e)
      then show ?thesis using ih snot head by (simp add: step)
    next
      case False
      then have "(s', t') \<in> set todo" using m by simp
      then show ?thesis using ih by (auto simp: step)
    qed
  qed
  from 1 2 3 show ?case by blast
qed

text \<open>
  Claim C8. For every entry \<open>(s_point, t_points)\<close> of \<^verbatim>\<open>edge_points\<close>: when the source
  point is outside the pool and no target point is in the pool, the source point and all
  target points are scheduled for pruning and the entry is deleted; otherwise the target
  points outside the pool are scheduled and removed from the entry, which stays. The set
  scheduled for pruning is exactly the union of these contributions.
\<close>

theorem prune_edge_points_correct:
  assumes "distinct (map fst edge_points)"
    and "(s_point, t_points) \<in> set edge_points"
    and "prune_edge_points str pool_points edge_points = (prune_points, edge_points')"
  shows "(if s_point \<notin> pool_points \<and> t_points \<inter> pool_points = {}
          then str s_point \<in> prune_points \<and> str ` t_points \<subseteq> prune_points
               \<and> map_of edge_points' s_point = None
          else str ` (t_points - pool_points) \<subseteq> prune_points
               \<and> map_of edge_points' s_point = Some (t_points \<inter> pool_points))
         \<and> prune_points = (\<Union>e \<in> set edge_points. entry_pruned str pool_points e)"
proof -
  have m: "\<forall>(s, t) \<in> set edge_points. map_of edge_points s = Some t"
    using assms(1) by auto
  note inv = prune_fold[OF assms(1) m, of str pool_points "{}"]
  have run: "fold (prune_entry str pool_points) edge_points ({}, edge_points) =
             (prune_points, edge_points')"
    using assms(3) by (simp add: prune_edge_points_def)
  have pr: "prune_points = (\<Union>e \<in> set edge_points. entry_pruned str pool_points e)"
    using inv by (simp add: run)
  have ep: "map_of edge_points' s_point =
      (if entry_dropped pool_points (s_point, t_points) then None
       else Some (t_points \<inter> pool_points))"
    using inv assms(2) by (auto simp: run)
  have sub: "entry_pruned str pool_points (s_point, t_points) \<subseteq> prune_points"
    unfolding pr using assms(2) by blast
  show ?thesis
  proof (cases "s_point \<notin> pool_points \<and> t_points \<inter> pool_points = {}")
    case True
    with sub have "str s_point \<in> prune_points \<and> str ` t_points \<subseteq> prune_points"
      by (simp add: entry_pruned_def entry_dropped_def)
    moreover from True ep have "map_of edge_points' s_point = None"
      by (simp add: entry_dropped_def)
    ultimately show ?thesis using True pr by simp
  next
    case False
    with sub have "str ` (t_points - pool_points) \<subseteq> prune_points"
      by (auto simp: entry_pruned_def entry_dropped_def)
    moreover from False ep
    have "map_of edge_points' s_point = Some (t_points \<inter> pool_points)"
      by (auto simp: entry_dropped_def)
    ultimately show ?thesis using False pr by auto
  qed
qed

theorem prune_edge_points_correct_witness:
  "map_of (snd (prune_edge_points (\<lambda>p. p) {''2''}
       [(''1'', {''1'', ''2''}), (''3'', {''4''})])) ''3'' = None
   \<and> ''3'' \<in> fst (prune_edge_points (\<lambda>p. p) {''2''}
       [(''1'', {''1'', ''2''}), (''3'', {''4''})])
   \<and> map_of (snd (prune_edge_points (\<lambda>p. p) {''2''}
       [(''1'', {''1'', ''2''}), (''3'', {''4''})])) ''1'' = Some {''2''}"
proof -
  let ?ep = "[(''1'', {''1'', ''2''}), (''3'', {''4''})] :: (string \<times> string set) list"
  let ?r = "prune_edge_points (\<lambda>p. p) {''2''} ?ep"
  have d: "distinct (map fst ?ep)" by simp
  have r: "?r = (fst ?r, snd ?r)" by simp
  have m3: "(''3'', {''4''}) \<in> set ?ep" by simp
  have m1: "(''1'', {''1'', ''2''}) \<in> set ?ep" by simp
  from prune_edge_points_correct[OF d m3 r] prune_edge_points_correct[OF d m1 r]
  show ?thesis by simp
qed

section \<open>Applying a delta\<close>

lemma map_of_clear_loop:
  "map_of (fold (\<lambda>(field, _) m. if field \<in> C then ClearField field m else m) fs stored) f =
     (if f \<in> C \<and> f \<in> fst ` set fs then None else map_of stored f)"
proof (induction fs arbitrary: stored)
  case Nil
  show ?case by simp
next
  case (Cons a fs)
  obtain g v where a: "a = (g, v)" by (cases a)
  show ?case
    by (auto simp: a Cons.IH ClearField_def AList.delete_conv')
qed

lemma map_of_clear_fields:
  "map_of (clear_fields key element stored) f =
     (if f \<in> set (CLEAR_FIELD_MAP key) \<and> f \<in> fst ` set element then None else map_of stored f)"
  by (auto simp: clear_fields_def ListFields_def map_of_clear_loop)

lemma map_of_merge_field:
  "map_of (merge_field (g, v) dst) f =
     (if f = g then Some (merge_value (map_of dst g) v) else map_of dst f)"
  by (simp add: merge_field_def AList.update_conv')

lemma map_of_merge_fold:
  "distinct (map fst src) \<Longrightarrow>
   map_of (fold merge_field src dst) f =
     (case map_of src f of None \<Rightarrow> map_of dst f
      | Some v \<Rightarrow> Some (merge_value (map_of dst f) v))"
proof (induction src arbitrary: dst)
  case Nil
  show ?case by simp
next
  case (Cons a src)
  obtain g v where a: "a = (g, v)" by (cases a)
  from Cons.prems have d: "distinct (map fst src)" and g: "g \<notin> fst ` set src"
    by (auto simp: a)
  from g have none: "map_of src g = None" by (simp add: map_of_eq_None_iff)
  have "map_of (fold merge_field (a # src) dst) f =
        (case map_of src f of None \<Rightarrow> map_of (merge_field (g, v) dst) f
         | Some w \<Rightarrow> Some (merge_value (map_of (merge_field (g, v) dst) f) w))"
    by (simp add: a Cons.IH[OF d])
  then show ?case
    using none by (auto simp: a map_of_merge_field split: option.splits)
qed

lemma map_of_MergeFrom:
  "wf_msg src \<Longrightarrow>
   map_of (MergeFrom dst src) f =
     (case map_of src f of None \<Rightarrow> map_of dst f
      | Some v \<Rightarrow> Some (merge_value (map_of dst f) v))"
  by (simp add: MergeFrom_def ListFields_def wf_msg_def map_of_merge_fold)

lemma apply_updated_element_keys:
  "fst ` set (fst (apply_updated_element key e dl)) = fst ` set (fst dl)"
proof (cases "map_of (fst dl) (get_id e)")
  case None
  then show ?thesis by (simp add: apply_updated_element_def)
next
  case (Some stored)
  then have "get_id e \<in> fst ` set (fst dl)"
    by (metis map_of_eq_None_iff option.distinct(1))
  then show ?thesis using Some
    by (auto simp: apply_updated_element_def AList.dom_update)
qed

lemma apply_updated_keys:
  "fst ` set (fst (apply_updated key es dl)) = fst ` set (fst dl)"
  unfolding apply_updated_def
  by (induction es arbitrary: dl) (simp_all add: apply_updated_element_keys)

lemma apply_updated_append:
  "apply_updated key (xs @ ys) dl = apply_updated key ys (apply_updated key xs dl)"
  by (simp add: apply_updated_def)

lemma apply_updated_Cons:
  "apply_updated key (e # es) dl = apply_updated key es (apply_updated_element key e dl)"
  by (simp add: apply_updated_def)

lemma apply_updated_element_missing:
  "get_id e \<notin> fst ` set d \<Longrightarrow>
   apply_updated_element key e (d, lg) = (d, lg @ [(DEBUG, missing_element_msg (get_id e))])"
  by (simp add: apply_updated_element_def map_of_eq_None_iff[symmetric])

lemma apply_updated_element_present:
  "map_of d (get_id e) = Some stored \<Longrightarrow>
   apply_updated_element key e (d, lg) =
     (AList.update (get_id e) (clear_and_merge key e stored) d, lg)"
  by (simp add: apply_updated_element_def)

text \<open>The log only grows, and the dictionary does not depend on it.\<close>

lemma apply_updated_element_log:
  "fst (apply_updated_element key e (d, lg)) = fst (apply_updated_element key e (d, lg')) \<and>
   snd (apply_updated_element key e (d, lg)) = lg @ snd (apply_updated_element key e (d, []))"
  by (simp add: apply_updated_element_def split: option.splits)

lemma apply_updated_log:
  "fst (apply_updated key es (d, lg)) = fst (apply_updated key es (d, [])) \<and>
   snd (apply_updated key es (d, lg)) = lg @ snd (apply_updated key es (d, []))"
proof (induction es arbitrary: d lg)
  case Nil
  show ?case by (simp add: apply_updated_def)
next
  case (Cons e es)
  obtain d' l' where s: "apply_updated_element key e (d, []) = (d', l')"
    by (cases "apply_updated_element key e (d, [])")
  have s2: "apply_updated_element key e (d, lg) = (d', lg @ l')"
    using apply_updated_element_log[of key e d lg "[]"] s
    by (cases "apply_updated_element key e (d, lg)") simp
  show ?case
    using Cons.IH[of d' "lg @ l'"] Cons.IH[of d' l']
    by (simp add: apply_updated_Cons s s2)
qed


lemma dict_update_keys:
  "fst ` set (dict_update d other) = fst ` set d \<union> fst ` set other"
  unfolding dict_update_def
proof (induction other arbitrary: d)
  case Nil
  show ?case by simp
next
  case (Cons a other)
  obtain k v where a: "a = (k, v)" by (cases a)
  show ?case by (simp add: a Cons.IH AList.dom_update)
qed

lemma dict_by_id_keys_aux:
  "fst ` set (fold (\<lambda>e d. AList.update (get_id e) e d) es d) = fst ` set d \<union> get_id ` set es"
proof (induction es arbitrary: d)
  case Nil
  show ?case by simp
next
  case (Cons e es)
  show ?case by (simp add: Cons.IH AList.dom_update)
qed

lemma dict_by_id_keys: "fst ` set (dict_by_id es) = get_id ` set es"
  by (simp add: dict_by_id_def dict_by_id_keys_aux)

lemma prune_refs_keys:
  "defs \<noteq> key \<Longrightarrow>
   elements (state_of (prune_refs defs ref key del_id node data)) key = elements data key"
  by (simp add: prune_refs_def Let_def split: option.splits)

lemma delete_after_keys:
  assumes "fst ` set (elements (state_of r) key) \<subseteq> K"
  shows "fst ` set (elements (state_of (case r of Raised e d \<Rightarrow> Raised e d
           | Returned d \<Rightarrow> Returned (d\<lparr>elements := (elements d)
                 (key := AList.delete del_id (elements d key))\<rparr>))) key) \<subseteq> K"
proof (cases r)
  case (Returned d)
  have "fst ` set (AList.delete del_id (elements d key)) \<subseteq> fst ` set (elements d key)"
    by (rule AList.dom_delete_subset)
  with assms Returned show ?thesis by simp
next
  case (Raised e d)
  with assms show ?thesis by simp
qed

lemma prune_element_keys:
  "fst ` set (elements (state_of (prune_element key del_id data)) key) \<subseteq> fst ` set (elements data key)"
proof (cases "map_of (elements data key) del_id")
  case None
  then show ?thesis by (simp add: prune_element_def)
next
  case (Some node)
  define r where "r =
     (if key = TASK_PROXIES then prune_refs TASKS ''task'' key del_id node data
      else if key = FAMILY_PROXIES then prune_refs FAMILIES ''family'' key del_id node data
      else if key = EDGES
      then (case list_remove ''edges.edges'' del_id (workflow data) of
              None \<Rightarrow> Raised ValueError data
            | Some w \<Rightarrow> Returned (data\<lparr>workflow := w\<rparr>))
      else Returned data)"
  have "elements (state_of r) key = elements data key"
    by (auto simp: r_def prune_refs_keys split: option.splits)
  then have "fst ` set (elements (state_of r) key) \<subseteq> fst ` set (elements data key)"
    by simp
  from delete_after_keys[OF this, of del_id] show ?thesis
    using Some by (simp add: prune_element_def r_def Let_def)
qed

lemma prune_elements_keys:
  "fst ` set (elements (state_of (prune_elements key ids data)) key) \<subseteq> fst ` set (elements data key)"
proof (induction ids arbitrary: data)
  case Nil
  show ?case by simp
next
  case (Cons i ids)
  show ?case
  proof (cases "prune_element key i data")
    case (Returned data')
    with prune_element_keys[of key i data] Cons.IH[of data'] show ?thesis
      by (simp add: subset_trans)
  next
    case (Raised e data')
    with prune_element_keys[of key i data] show ?thesis by simp
  qed
qed


lemma merged_rep:
  "get_rep [(f, merge_value old (VRep ys))] f = (case old of Some (VRep xs) \<Rightarrow> xs | _ \<Rightarrow> []) @ ys"
  by (cases "(old, VRep ys)" rule: merge_value.cases) (simp_all add: get_rep_def)

text \<open>
  Claim C1. For a kind other than the workflow and an entity \<open>element\<close> of the delta's
  \<^verbatim>\<open>updated\<close> list whose id is in the target dictionary when its turn comes (\<open>d\<close> is
  the dictionary left by the \<^verbatim>\<open>added\<close> phase and by the entities \<open>xs\<close> before it),
  \<^verbatim>\<open>apply_delta\<close> replaces the stored entity by \<open>clear_and_merge\<close> of it and goes on with
  the rest \<open>ys\<close>. The clearing removes exactly the fields that are in the kind's
  \<^verbatim>\<open>CLEAR_FIELD_MAP\<close> entry and set in the delta entity, and nothing when that entry is
  empty; the merge then leaves the fields that the delta entity does not set, appends a
  repeated field to what is stored (to nothing, when the field was cleared) and
  overwrites a singular field.
\<close>

theorem apply_delta_updated_clear_merge:
  assumes key: "key \<noteq> WORKFLOW"
    and wf: "wf_msg element"
    and upd: "updated delta = xs @ element # ys"
    and before: "apply_updated key xs
        (if added delta \<noteq> [] then dict_update (elements data key) (dict_by_id (added delta))
         else elements data key, []) = (d, lg)"
    and present: "map_of d (get_id element) = Some stored"
  shows "apply_delta key delta data =
           (prune_elements key (pruned delta)
              (data\<lparr>elements := (elements data)(key := fst (apply_updated key ys
                 (AList.update (get_id element) (clear_and_merge key element stored) d, lg)))\<rparr>),
            snd (apply_updated key ys
                 (AList.update (get_id element) (clear_and_merge key element stored) d, lg)))
       \<and> (\<forall>f. map_of (clear_fields key element stored) f =
              (if f \<in> set (CLEAR_FIELD_MAP key) \<and> f \<in> fst ` set (ListFields element) then None
               else map_of stored f))
       \<and> (CLEAR_FIELD_MAP key = [] \<longrightarrow> clear_fields key element stored = stored)
       \<and> clear_and_merge key element stored = MergeFrom (clear_fields key element stored) element
       \<and> (\<forall>f. f \<notin> fst ` set (ListFields element) \<longrightarrow>
              map_of (clear_and_merge key element stored) f = map_of stored f)
       \<and> (\<forall>f ys. map_of element f = Some (VRep ys) \<longrightarrow>
              get_rep (clear_and_merge key element stored) f =
                (if f \<in> set (CLEAR_FIELD_MAP key) then ys else get_rep stored f @ ys))
       \<and> (\<forall>f v. map_of element f = Some v \<longrightarrow> (\<forall>ys. v \<noteq> VRep ys) \<longrightarrow> (\<forall>ys. v \<noteq> VMap ys) \<longrightarrow>
              map_of (clear_and_merge key element stored) f = Some v)
       \<and> (\<forall>f. map_of (clear_and_merge key element stored) f =
              (case map_of element f of None \<Rightarrow> map_of stored f
               | Some v \<Rightarrow> Some (merge_value
                   (if f \<in> set (CLEAR_FIELD_MAP key) then None else map_of stored f) v)))
       \<and> set (CLEAR_FIELD_MAP key) =
             (if key = FAMILY_PROXIES then {''state_totals'', ''states''}
              else if key = TASK_PROXIES then {''prerequisites'', ''outputs''}
              else {})
       \<and> set (CLEAR_FIELD_MAP WORKFLOW) = {''state_totals'', ''states''}"
proof -
  let ?m = "clear_and_merge key element stored"
  have run: "apply_updated key (updated delta)
        (if added delta \<noteq> [] then dict_update (elements data key) (dict_by_id (added delta))
         else elements data key, []) =
        apply_updated key ys (AList.update (get_id element) ?m d, lg)"
    unfolding upd apply_updated_append before apply_updated_Cons
    by (simp add: apply_updated_element_present[OF present])
  have ne: "updated delta \<noteq> []" using upd by simp
  have 1: "apply_delta key delta data =
           (prune_elements key (pruned delta)
              (data\<lparr>elements := (elements data)(key := fst (apply_updated key ys
                 (AList.update (get_id element) ?m d, lg)))\<rparr>),
            snd (apply_updated key ys (AList.update (get_id element) ?m d, lg)))"
    unfolding apply_delta_def Let_def using ne run by simp
  have 2: "map_of (clear_fields key element stored) f =
              (if f \<in> set (CLEAR_FIELD_MAP key) \<and> f \<in> fst ` set (ListFields element) then None
               else map_of stored f)" for f
    by (simp add: map_of_clear_fields ListFields_def)
  have 3: "CLEAR_FIELD_MAP key = [] \<longrightarrow> clear_fields key element stored = stored"
    by (simp add: clear_fields_def)
  have m: "map_of ?m f = (case map_of element f of None \<Rightarrow> map_of stored f
      | Some v \<Rightarrow> Some (merge_value
          (if f \<in> set (CLEAR_FIELD_MAP key) then None else map_of stored f) v))" for f
  proof (cases "map_of element f")
    case None
    then have "f \<notin> fst ` set element" by (simp add: map_of_eq_None_iff)
    with None show ?thesis
      unfolding clear_and_merge_def map_of_MergeFrom[OF wf] map_of_clear_fields by simp
  next
    case (Some v)
    then have "f \<in> fst ` set element" by (metis map_of_eq_None_iff option.distinct(1))
    with Some show ?thesis
      unfolding clear_and_merge_def map_of_MergeFrom[OF wf] map_of_clear_fields by simp
  qed
  have 5: "map_of ?m f = map_of stored f" if "f \<notin> fst ` set (ListFields element)" for f
    using that by (simp add: m ListFields_def map_of_eq_None_iff[symmetric])
  have 6: "get_rep ?m f = (if f \<in> set (CLEAR_FIELD_MAP key) then zs else get_rep stored f @ zs)"
    if "map_of element f = Some (VRep zs)" for f zs
  proof -
    have "map_of ?m f = Some (merge_value
          (if f \<in> set (CLEAR_FIELD_MAP key) then None else map_of stored f) (VRep zs))"
      using that by (simp add: m)
    then show ?thesis
      by (cases "(if f \<in> set (CLEAR_FIELD_MAP key) then None else map_of stored f, VRep zs)"
            rule: merge_value.cases)
         (auto simp: get_rep_def split: if_splits)
  qed
  have 7: "map_of ?m f = Some v"
    if "map_of element f = Some v" "\<forall>zs. v \<noteq> VRep zs" "\<forall>zs. v \<noteq> VMap zs" for f v
  proof -
    have "merge_value old v = v" for old
      using that(2,3) by (cases "(old, v)" rule: merge_value.cases) simp_all
    then show ?thesis using that(1) by (simp add: m)
  qed
  have 8: "set (CLEAR_FIELD_MAP key) =
             (if key = FAMILY_PROXIES then {''state_totals'', ''states''}
              else if key = TASK_PROXIES then {''prerequisites'', ''outputs''}
              else {})"
    using key by (cases key) (simp_all add: CLEAR_FIELD_MAP_def)
  have 9: "set (CLEAR_FIELD_MAP WORKFLOW) = {''state_totals'', ''states''}"
    by (simp add: CLEAR_FIELD_MAP_def)
  from 1 2 3 m 5 6 7 8 9 show ?thesis
    by (simp add: clear_and_merge_def[symmetric]) 
qed


theorem apply_delta_updated_clear_merge_witness:
  "get_rep (clear_and_merge TASK_PROXIES
      [(''id'', VStr ''tp''), (''prerequisites'', VRep [''p2'']), (''jobs'', VRep [''j2'']),
       (''state'', VStr ''running'')]
      [(''id'', VStr ''tp''), (''prerequisites'', VRep [''p1'']), (''jobs'', VRep [''j1'']),
       (''state'', VStr ''waiting''), (''is_held'', VBool True)]) ''prerequisites'' = [''p2'']
   \<and> get_rep (clear_and_merge TASK_PROXIES
      [(''id'', VStr ''tp''), (''prerequisites'', VRep [''p2'']), (''jobs'', VRep [''j2'']),
       (''state'', VStr ''running'')]
      [(''id'', VStr ''tp''), (''prerequisites'', VRep [''p1'']), (''jobs'', VRep [''j1'']),
       (''state'', VStr ''waiting''), (''is_held'', VBool True)]) ''jobs'' = [''j1'', ''j2'']
   \<and> map_of (clear_and_merge TASK_PROXIES
      [(''id'', VStr ''tp''), (''prerequisites'', VRep [''p2'']), (''jobs'', VRep [''j2'']),
       (''state'', VStr ''running'')]
      [(''id'', VStr ''tp''), (''prerequisites'', VRep [''p1'']), (''jobs'', VRep [''j1'']),
       (''state'', VStr ''waiting''), (''is_held'', VBool True)]) ''state'' = Some (VStr ''running'')
   \<and> map_of (clear_and_merge TASK_PROXIES
      [(''id'', VStr ''tp''), (''prerequisites'', VRep [''p2'']), (''jobs'', VRep [''j2'']),
       (''state'', VStr ''running'')]
      [(''id'', VStr ''tp''), (''prerequisites'', VRep [''p1'']), (''jobs'', VRep [''j1'']),
       (''state'', VStr ''waiting''), (''is_held'', VBool True)]) ''is_held'' = Some (VBool True)"
proof -
  let ?el = "[(''id'', VStr ''tp''), (''prerequisites'', VRep [''p2'']), (''jobs'', VRep [''j2'']),
       (''state'', VStr ''running'')]"
  let ?st = "[(''id'', VStr ''tp''), (''prerequisites'', VRep [''p1'']), (''jobs'', VRep [''j1'']),
       (''state'', VStr ''waiting''), (''is_held'', VBool True)]"
  let ?data = "\<lparr>elements = (\<lambda>k. if k = TASK_PROXIES then [(''tp'', ?st)] else []), workflow = []\<rparr>"
  let ?delta = "empty_deltas\<lparr>updated := [?el]\<rparr>"
  have key: "TASK_PROXIES \<noteq> WORKFLOW" by simp
  have wf: "wf_msg ?el" by (simp add: wf_msg_def)
  have upd: "updated ?delta = [] @ ?el # []" by simp
  have before: "apply_updated TASK_PROXIES []
        (if added ?delta \<noteq> [] then dict_update (elements ?data TASK_PROXIES) (dict_by_id (added ?delta))
         else elements ?data TASK_PROXIES, []) = ([(''tp'', ?st)], [])"
    by (simp add: apply_updated_def empty_deltas_def)
  have present: "map_of [(''tp'', ?st)] (get_id ?el) = Some ?st"
    by (simp add: get_id_def get_str_def)
  note t = apply_delta_updated_clear_merge[OF key wf upd before present]
  note r1 = t[THEN conjunct2]
  note r2 = r1[THEN conjunct2]
  note r3 = r2[THEN conjunct2]
  note r4 = r3[THEN conjunct2]
  note r5 = r4[THEN conjunct2]
  note r6 = r5[THEN conjunct2]
  note keep = r4[THEN conjunct1, rule_format]
  note rep = r5[THEN conjunct1, rule_format]
  note sing = r6[THEN conjunct1, rule_format]
  have 1: "get_rep (clear_and_merge TASK_PROXIES ?el ?st) ''prerequisites'' = [''p2'']"
    using rep[of "''prerequisites''" "[''p2'']"] by (simp add: CLEAR_FIELD_MAP_def)
  have 2: "get_rep (clear_and_merge TASK_PROXIES ?el ?st) ''jobs'' = [''j1'', ''j2'']"
    using rep[of "''jobs''" "[''j2'']"] by (simp add: CLEAR_FIELD_MAP_def get_rep_def)
  have 3: "map_of (clear_and_merge TASK_PROXIES ?el ?st) ''state'' = Some (VStr ''running'')"
    using sing[of "''state''" "VStr ''running''"] by simp
  have 4: "map_of (clear_and_merge TASK_PROXIES ?el ?st) ''is_held'' = Some (VBool True)"
    using keep[of "''is_held''"] by (simp add: ListFields_def)
  from 1 2 3 4 show ?thesis by blast
qed

lemma apply_delta_alt:
  "apply_delta key delta data =
     (prune_elements key (pruned delta)
        (data\<lparr>elements := (elements data)(key := fst (apply_updated key (updated delta)
           (if added delta \<noteq> [] then dict_update (elements data key) (dict_by_id (added delta))
            else elements data key, [])))\<rparr>),
      snd (apply_updated key (updated delta)
           (if added delta \<noteq> [] then dict_update (elements data key) (dict_by_id (added delta))
            else elements data key, [])))"
  by (simp add: apply_delta_def Let_def apply_updated_def)

text \<open>
  Claim C3. An entry \<open>e\<close> of the \<^verbatim>\<open>updated\<close> list whose id is neither in the target
  dictionary nor among the added entities is skipped: its step leaves the dictionary as
  it is and writes one debug record; the outcome of \<^verbatim>\<open>apply_delta\<close> is the outcome for
  the batch without the entry, so the entries after it are processed as before and the
  entry itself causes no exception; the id is still absent afterwards; and with nothing
  to prune the call returns.
\<close>

theorem apply_delta_missing_element_skipped:
  assumes absent: "get_id e \<notin> fst ` set (elements data key)"
    and not_added: "get_id e \<notin> get_id ` set (added delta)"
    and upd: "updated delta = xs @ e # ys"
  shows "fst (apply_delta key delta data) = fst (apply_delta key (delta\<lparr>updated := xs @ ys\<rparr>) data)
    \<and> (DEBUG, missing_element_msg (get_id e)) \<in> set (snd (apply_delta key delta data))
    \<and> get_id e \<notin> fst ` set (elements (state_of (fst (apply_delta key delta data))) key)
    \<and> (pruned delta = [] \<longrightarrow> (\<exists>data'. fst (apply_delta key delta data) = Returned data'))
    \<and> apply_updated_element key e
         (apply_updated key xs
           (if added delta \<noteq> [] then dict_update (elements data key) (dict_by_id (added delta))
            else elements data key, [])) =
       (fst (apply_updated key xs
           (if added delta \<noteq> [] then dict_update (elements data key) (dict_by_id (added delta))
            else elements data key, [])),
        snd (apply_updated key xs
           (if added delta \<noteq> [] then dict_update (elements data key) (dict_by_id (added delta))
            else elements data key, [])) @ [(DEBUG, missing_element_msg (get_id e))])"
proof -
  define d1 where "d1 = (if added delta \<noteq> []
     then dict_update (elements data key) (dict_by_id (added delta)) else elements data key)"
  define dx where "dx = fst (apply_updated key xs (d1, []))"
  define lx where "lx = snd (apply_updated key xs (d1, []))"
  let ?dbg = "(DEBUG, missing_element_msg (get_id e))"
  have k1: "get_id e \<notin> fst ` set d1"
    using absent not_added by (simp add: d1_def dict_update_keys dict_by_id_keys)
  have kx: "get_id e \<notin> fst ` set dx"
    using k1 apply_updated_keys[of key xs "(d1, [])"] by (simp add: dx_def)
  have xs: "apply_updated key xs (d1, []) = (dx, lx)" by (simp add: dx_def lx_def)
  have step: "apply_updated_element key e (dx, lx) = (dx, lx @ [?dbg])"
    by (rule apply_updated_element_missing[OF kx])
  have with_e: "apply_updated key (xs @ e # ys) (d1, []) = apply_updated key ys (dx, lx @ [?dbg])"
    by (simp add: apply_updated_append apply_updated_Cons xs step)
  have without_e: "apply_updated key (xs @ ys) (d1, []) = apply_updated key ys (dx, lx)"
    by (simp add: apply_updated_append xs)
  have same: "fst (apply_updated key (xs @ e # ys) (d1, [])) = fst (apply_updated key (xs @ ys) (d1, []))"
    unfolding with_e without_e
    using apply_updated_log[of key ys dx "lx @ [?dbg]"] apply_updated_log[of key ys dx lx] by simp
  have logged: "?dbg \<in> set (snd (apply_updated key (xs @ e # ys) (d1, [])))"
    unfolding with_e using apply_updated_log[of key ys dx "lx @ [?dbg]"] by simp
  have keys: "fst ` set (fst (apply_updated key (xs @ e # ys) (d1, []))) = fst ` set d1"
    using apply_updated_keys[of key "xs @ e # ys" "(d1, [])"] by simp
  have 1: "fst (apply_delta key delta data) = fst (apply_delta key (delta\<lparr>updated := xs @ ys\<rparr>) data)"
    unfolding apply_delta_alt using same by (simp add: upd d1_def)
  have 2: "?dbg \<in> set (snd (apply_delta key delta data))"
    unfolding apply_delta_alt using logged by (simp add: upd d1_def)
  have 3: "get_id e \<notin> fst ` set (elements (state_of (fst (apply_delta key delta data))) key)"
  proof -
    have "fst ` set (elements (state_of (fst (apply_delta key delta data))) key) \<subseteq> fst ` set d1"
      unfolding apply_delta_alt
      using prune_elements_keys[of key "pruned delta"
          "data\<lparr>elements := (elements data)(key := fst (apply_updated key (xs @ e # ys) (d1, [])))\<rparr>"]
        keys
      by (simp add: upd d1_def)
    with k1 show ?thesis by blast
  qed
  have 4: "pruned delta = [] \<longrightarrow> (\<exists>data'. fst (apply_delta key delta data) = Returned data')"
    by (simp add: apply_delta_alt)
  have 5: "apply_updated_element key e (apply_updated key xs (d1, [])) =
       (fst (apply_updated key xs (d1, [])),
        snd (apply_updated key xs (d1, [])) @ [?dbg])"
    using step by (simp add: xs)
  from 1 2 3 4 5 show ?thesis unfolding d1_def by blast
qed

theorem apply_delta_missing_element_skipped_witness:
  "fst (apply_delta TASKS
      (empty_deltas\<lparr>updated := [[(''id'', VStr ''zz''), (''name'', VStr ''Z'')],
                                [(''id'', VStr ''a''), (''name'', VStr ''B'')]]\<rparr>)
      \<lparr>elements = (\<lambda>k. if k = TASKS then [(''a'', [(''id'', VStr ''a''), (''name'', VStr ''A'')])]
                          else []), workflow = []\<rparr>) =
   fst (apply_delta TASKS
      (empty_deltas\<lparr>updated := [[(''id'', VStr ''a''), (''name'', VStr ''B'')]]\<rparr>)
      \<lparr>elements = (\<lambda>k. if k = TASKS then [(''a'', [(''id'', VStr ''a''), (''name'', VStr ''A'')])]
                          else []), workflow = []\<rparr>)
   \<and> (DEBUG, missing_element_msg ''zz'') \<in> set (snd (apply_delta TASKS
      (empty_deltas\<lparr>updated := [[(''id'', VStr ''zz''), (''name'', VStr ''Z'')],
                                [(''id'', VStr ''a''), (''name'', VStr ''B'')]]\<rparr>)
      \<lparr>elements = (\<lambda>k. if k = TASKS then [(''a'', [(''id'', VStr ''a''), (''name'', VStr ''A'')])]
                          else []), workflow = []\<rparr>))"
proof -
  let ?e = "[(''id'', VStr ''zz''), (''name'', VStr ''Z'')]"
  let ?u = "[(''id'', VStr ''a''), (''name'', VStr ''B'')]"
  let ?data = "\<lparr>elements = (\<lambda>k. if k = TASKS then [(''a'', [(''id'', VStr ''a''), (''name'', VStr ''A'')])]
                          else []), workflow = []\<rparr>"
  let ?delta = "empty_deltas\<lparr>updated := [?e, ?u]\<rparr>"
  have id: "get_id ?e = ''zz''" by (simp add: get_id_def get_str_def)
  have absent: "get_id ?e \<notin> fst ` set (elements ?data TASKS)" by (simp add: id)
  have not_added: "get_id ?e \<notin> get_id ` set (added ?delta)" by (simp add: empty_deltas_def)
  have upd: "updated ?delta = [] @ ?e # [?u]" by simp
  from apply_delta_missing_element_skipped[OF absent not_added upd]
  show ?thesis by (simp add: id)
qed

section \<open>Clearing, finalising and publishing the deltas\<close>

lemma not_set_empty [simp]: "\<not> deltas_set empty_deltas" "\<not> wdeltas_set empty_wdeltas"
  by (simp_all add: deltas_set_def wdeltas_set_def empty_deltas_def empty_wdeltas_def)

lemma clear_deltas_eq:
  "clear_deltas s =
     s\<lparr>self_deltas := (\<lambda>k. if k = WORKFLOW then self_deltas s WORKFLOW else empty_deltas),
       self_wdeltas := empty_wdeltas,
       self_added := \<lparr>elements = (\<lambda>k. if k = WORKFLOW then elements (self_added s) WORKFLOW else []),
                      workflow = []\<rparr>,
       self_updated := \<lparr>elements = (\<lambda>k. if k = WORKFLOW then elements (self_updated s) WORKFLOW else []),
                        workflow = []\<rparr>\<rparr>"
proof -
  have e: "(self_deltas s)(EDGES := empty_deltas, FAMILIES := empty_deltas,
             FAMILY_PROXIES := empty_deltas, JOBS := empty_deltas, TASKS := empty_deltas,
             TASK_PROXIES := empty_deltas) =
           (\<lambda>k. if k = WORKFLOW then self_deltas s WORKFLOW else empty_deltas)"
    by (rule ext) (case_tac k; simp)
  have f: "(elements st)(EDGES := [], FAMILIES := [], FAMILY_PROXIES := [], JOBS := [],
             TASKS := [], TASK_PROXIES := []) =
           (\<lambda>k. if k = WORKFLOW then elements st WORKFLOW else [])" for st :: store
    by (rule ext) (case_tac k; simp)
  show ?thesis
    by (simp add: clear_deltas_def kinds_def clear_key_def put_elements_def e f)
qed

lemma publish_none:
  assumes "\<And>k. \<not> delta_is_set s k"
  shows "get_publish_deltas s = [(ALL_DELTAS, AllDeltas [], ''SerializeToString'')]"
proof -
  have "fold (publish_key s) ks ra = ra" for ks ra
    by (induction ks) (simp_all add: publish_key_def assms)
  then show ?thesis by (simp add: get_publish_deltas_def)
qed

text \<open>
  Claim C9. After \<^verbatim>\<open>clear_deltas\<close> the delta message of every kind is cleared (no field
  of it is set) and the added and the updated buffer of every kind are empty; a call of
  \<^verbatim>\<open>get_publish_deltas\<close> then returns the one triple of the all-deltas message, with no
  field set in it.
\<close>

theorem clear_deltas_empties:
  "(\<forall>key. key \<noteq> WORKFLOW \<longrightarrow>
       self_deltas (clear_deltas s) key = empty_deltas
     \<and> \<not> deltas_set (self_deltas (clear_deltas s) key)
     \<and> elements (self_added (clear_deltas s)) key = []
     \<and> elements (self_updated (clear_deltas s)) key = [])
   \<and> self_wdeltas (clear_deltas s) = empty_wdeltas
   \<and> \<not> wdeltas_set (self_wdeltas (clear_deltas s))
   \<and> workflow (self_added (clear_deltas s)) = []
   \<and> workflow (self_updated (clear_deltas s)) = []
   \<and> get_publish_deltas (clear_deltas s) = [(ALL_DELTAS, AllDeltas [], ''SerializeToString'')]"
proof -
  have "\<not> delta_is_set (clear_deltas s) k" for k
    by (simp add: delta_is_set_def clear_deltas_eq)
  then have "get_publish_deltas (clear_deltas s) = [(ALL_DELTAS, AllDeltas [], ''SerializeToString'')]"
    by (rule publish_none)
  then show ?thesis by (simp add: clear_deltas_eq)
qed

theorem clear_deltas_empties_witness:
  "self_deltas (clear_deltas (sample_mgr\<lparr>self_deltas :=
        (\<lambda>k. empty_deltas\<lparr>pruned := [''x'']\<rparr>)\<rparr>)) TASKS = empty_deltas
   \<and> elements (self_added (clear_deltas (sample_mgr\<lparr>self_deltas :=
        (\<lambda>k. empty_deltas\<lparr>pruned := [''x'']\<rparr>)\<rparr>))) TASKS = []
   \<and> get_publish_deltas (clear_deltas (sample_mgr\<lparr>self_deltas :=
        (\<lambda>k. empty_deltas\<lparr>pruned := [''x'']\<rparr>)\<rparr>)) =
       [(ALL_DELTAS, AllDeltas [], ''SerializeToString'')]"
proof -
  have k: "TASKS \<noteq> WORKFLOW" by simp
  note t = clear_deltas_empties[of "sample_mgr\<lparr>self_deltas :=
        (\<lambda>k. empty_deltas\<lparr>pruned := [''x'']\<rparr>)\<rparr>"]
  note a = t[THEN conjunct1, rule_format, OF k]
  note b = t[THEN conjunct2, THEN conjunct2, THEN conjunct2, THEN conjunct2, THEN conjunct2]
  from a b show ?thesis by simp
qed

lemma kind_of_name_kind_name [simp]: "kind_of_name (kind_name k) = Some k"
  by (cases k) (simp_all add: kind_of_name_def kind_name_def kinds_def)

lemma kind_of_name_Some: "kind_of_name n = Some k \<Longrightarrow> n = kind_name k"
  by (auto simp: kind_of_name_def kind_name_def kinds_def split: if_splits)

lemma kind_of_name_all [simp]: "kind_of_name ALL_DELTAS = None"
  by (simp add: kind_of_name_def kind_name_def kinds_def ALL_DELTAS_def)

lemma DELTAS_MAP_keys_iff:
  "n \<in> set DELTAS_MAP_keys \<longleftrightarrow> n = ALL_DELTAS \<or> (\<exists>k. n = kind_name k)"
proof
  assume "n \<in> set DELTAS_MAP_keys"
  then show "n = ALL_DELTAS \<or> (\<exists>k. n = kind_name k)"
    by (auto simp: DELTAS_MAP_keys_def)
next
  assume "n = ALL_DELTAS \<or> (\<exists>k. n = kind_name k)"
  then show "n \<in> set DELTAS_MAP_keys"
  proof
    assume "n = ALL_DELTAS" then show ?thesis by (simp add: DELTAS_MAP_keys_def)
  next
    assume "\<exists>k. n = kind_name k"
    then obtain k where "n = kind_name k" ..
    then show ?thesis by (cases k) (simp_all add: DELTAS_MAP_keys_def kinds_def)
  qed
qed

lemma get_data_elements_unknown:
  "element_type \<notin> set DELTAS_MAP_keys \<Longrightarrow>
   get_data_elements s element_type = Inr (WDeltas empty_wdeltas)"
  by (simp add: get_data_elements_def)

lemma get_data_elements_collection:
  "key \<noteq> WORKFLOW \<Longrightarrow>
   get_data_elements s (kind_name key) =
     Inr (Deltas (empty_deltas\<lparr>time := get_float (workflow (self_data s)) ''last_updated'',
                               added := map snd (elements (self_data s) key)\<rparr>))"
  by (simp add: get_data_elements_def DELTAS_MAP_keys_iff) blast

text \<open>
  Claim C10. For a string that is not a key of \<^verbatim>\<open>DELTAS_MAP\<close> the result is an empty
  workflow delta, and for the name of a collection kind the delta whose \<^verbatim>\<open>added\<close> field
  lists every stored entity (the two lemmas above; the function reads the manager and
  returns a message, it has no state to change). For the key \<^verbatim>\<open>all\<close> of \<^verbatim>\<open>DELTAS_MAP\<close>,
  which is not the workflow kind, the call raises instead of returning a delta.
\<close>

theorem get_data_elements_all_raises:
  "ALL_DELTAS \<in> set DELTAS_MAP_keys \<and> ALL_DELTAS \<noteq> kind_name WORKFLOW
   \<and> get_data_elements s ALL_DELTAS = Inl AttributeError"
  by (simp add: get_data_elements_def DELTAS_MAP_keys_iff) (simp add: ALL_DELTAS_def kind_name_def)

lemma sort_mset_eq:
  fixes xs ys :: "'a::linorder list"
  assumes "mset xs = mset ys"
  shows "sort xs = sort ys"
proof (rule properties_for_sort)
  show "mset (sort ys) = mset xs" using assms by simp
  show "sorted (sort ys)" by simp
qed

lemma generate_checksum_mset:
  "mset xs = mset ys \<Longrightarrow> generate_checksum xs = generate_checksum ys"
  by (simp add: generate_checksum_def sort_mset_eq[of xs ys])

lemma stamp_key_data [simp]: "self_data (stamp_key t k s) = self_data s"
  by (simp add: stamp_key_def)

lemma stamp_fold_data [simp]: "self_data (fold (stamp_key t) ks s) = self_data s"
  by (induction ks arbitrary: s) simp_all

lemma checksum_strings_cong: "self_data s = self_data s' \<Longrightarrow> checksum_strings s k = checksum_strings s' k"
  by (simp add: checksum_strings_def)

lemma stamp_key_deltas:
  "self_deltas (stamp_key t k s) key =
     (if k = key \<and> key \<noteq> WORKFLOW \<and> deltas_set (self_deltas s key)
      then (self_deltas s key)\<lparr>time := t, checksum := generate_checksum (checksum_strings s key)\<rparr>
      else self_deltas s key)"
  by (simp add: stamp_key_def)

lemma stamp_fold_deltas:
  "distinct ks \<Longrightarrow>
   self_deltas (fold (stamp_key t) ks s) key =
     (if key \<in> set ks \<and> key \<noteq> WORKFLOW \<and> deltas_set (self_deltas s key)
      then (self_deltas s key)\<lparr>time := t, checksum := generate_checksum (checksum_strings s key)\<rparr>
      else self_deltas s key)"
proof (induction ks arbitrary: s)
  case Nil
  show ?case by simp
next
  case (Cons k ks)
  then have d: "distinct ks" and nk: "k \<notin> set ks" by simp_all
  have cs: "checksum_strings (stamp_key t k s) key = checksum_strings s key"
    by (rule checksum_strings_cong) simp
  show ?case
  proof (cases "key \<in> set ks")
    case True
    then have "k \<noteq> key" using nk by blast
    then show ?thesis using True by (simp add: Cons.IH[OF d] stamp_key_deltas cs)
  next
    case False
    then show ?thesis by (auto simp: Cons.IH[OF d] stamp_key_deltas cs)
  qed
qed

lemma distinct_kinds: "distinct kinds" "k \<in> set kinds"
  by (simp add: kinds_def, cases k) (simp_all add: kinds_def)

text \<open>
  Claim C2, for the kinds whose delta message has a checksum (all but the workflow). When
  \<^verbatim>\<open>apply_deltas\<close> returns and the delta of such a kind has a field set, its checksum is
  Adler-32 of the concatenation of the sorted strings of the store's entities of that
  kind, the ids for the edges and the stamps otherwise, reduced to 32 bits; and the
  checksum of a list of strings depends on the multiset of the strings only.
\<close>

theorem apply_deltas_checksum:
  assumes run: "apply_deltas env reloaded_arg s = Returned (s', lg)"
    and key: "key \<noteq> WORKFLOW"
    and set: "delta_is_set s' key"
  shows "delta_checksum s' key =
           Some (adler32 (concat (sort (checksum_strings s' key))) mod 4294967296)
     \<and> checksum_strings s' key =
           map (\<lambda>e. get_str e (if key = EDGES then ''id'' else ''stamp''))
             (map snd (elements (self_data s') key))
     \<and> (\<forall>n. delta_checksum s' key = Some n \<longrightarrow> n < 2 ^ 32)
     \<and> (\<forall>xs ys. mset xs = mset ys \<longrightarrow> generate_checksum xs = generate_checksum ys)"
proof -
  define s3 where "s3 = fold gather_updated kinds (fold gather_added kinds (copy_job_deltas s))"
  obtain sa la where loop: "for_each (apply_key reloaded_arg) kinds (s3, []) = Returned (sa, la)"
    using run unfolding apply_deltas_def Let_def s3_def
    by (cases "for_each (apply_key reloaded_arg) kinds
                 (fold gather_updated kinds (fold gather_added kinds (copy_job_deltas s)), [])")
       auto
  define t where "t = time_now env sa"
  define s4 where "s4 = fold (stamp_key t) kinds (tick sa)"
  have s': "s' = clear_job_pool s4"
    using run unfolding apply_deltas_def Let_def s3_def[symmetric] loop s4_def t_def by simp
  have d': "self_deltas s' key = self_deltas s4 key" and data': "self_data s' = self_data s4"
    by (simp_all add: s' clear_job_pool_def)
  have data4: "self_data s4 = self_data (tick sa)" by (simp add: s4_def)
  have d4: "self_deltas s4 key =
     (if deltas_set (self_deltas (tick sa) key)
      then (self_deltas (tick sa) key)\<lparr>time := t,
              checksum := generate_checksum (checksum_strings (tick sa) key)\<rparr>
      else self_deltas (tick sa) key)"
    unfolding s4_def stamp_fold_deltas[OF distinct_kinds(1)] using key distinct_kinds(2) by simp
  have was_set: "deltas_set (self_deltas (tick sa) key)"
  proof (rule ccontr)
    assume n: "\<not> deltas_set (self_deltas (tick sa) key)"
    then have "self_deltas s' key = self_deltas (tick sa) key" by (simp add: d' d4)
    with n set key show False by (simp add: delta_is_set_def)
  qed
  have cs: "checksum_strings (tick sa) key = checksum_strings s' key"
    by (rule checksum_strings_cong) (simp add: data' data4)
  have "checksum (self_deltas s' key) = generate_checksum (checksum_strings s' key)"
    using was_set by (simp add: d' d4 cs)
  then have 1: "delta_checksum s' key =
           Some (adler32 (concat (sort (checksum_strings s' key))) mod 4294967296)"
    using key by (simp add: delta_checksum_def generate_checksum_def)
  have 2: "checksum_strings s' key =
           map (\<lambda>e. get_str e (if key = EDGES then ''id'' else ''stamp''))
             (map snd (elements (self_data s') key))"
    by (simp add: checksum_strings_def)
  have 3: "\<forall>n. delta_checksum s' key = Some n \<longrightarrow> n < 2 ^ 32"
    unfolding 1 by simp
  have 4: "\<forall>xs ys. mset xs = mset ys \<longrightarrow> generate_checksum xs = generate_checksum ys"
    using generate_checksum_mset by blast
  from 1 2 3 4 show ?thesis by blast
qed

text \<open>What the steps of \<^verbatim>\<open>apply_deltas\<close> leave alone in the delta messages.\<close>

lemma apply_key_Returned:
  "pruned (self_deltas s key) = [] \<Longrightarrow> \<exists>s' lg'. apply_key r key (s, lg) = Returned (s', lg')"
  by (simp add: apply_key_def Let_def apply_delta_alt)

lemma apply_key_frame:
  assumes "apply_key r key (s, lg) = Returned (s', lg')"
  shows "added (self_deltas s' k) = added (self_deltas s k)
       \<and> updated (self_deltas s' k) = updated (self_deltas s k)
       \<and> pruned (self_deltas s' k) = pruned (self_deltas s k)
       \<and> w_added (self_wdeltas s') = w_added (self_wdeltas s)
       \<and> w_updated (self_wdeltas s') = w_updated (self_wdeltas s)"
  using assms
  by (auto simp: apply_key_def Let_def split: if_splits outcome.splits)

lemma apply_loop_frame:
  assumes "for_each (apply_key r) ks (s, lg) = Returned (s', lg')"
  shows "added (self_deltas s' k) = added (self_deltas s k)
       \<and> updated (self_deltas s' k) = updated (self_deltas s k)
       \<and> pruned (self_deltas s' k) = pruned (self_deltas s k)
       \<and> w_added (self_wdeltas s') = w_added (self_wdeltas s)
       \<and> w_updated (self_wdeltas s') = w_updated (self_wdeltas s)"
  using assms
proof (induction ks arbitrary: s lg)
  case Nil
  then show ?case by simp
next
  case (Cons key ks)
  from Cons.prems obtain s1 l1 where
    1: "apply_key r key (s, lg) = Returned (s1, l1)" and
    2: "for_each (apply_key r) ks (s1, l1) = Returned (s', lg')"
    by (cases "apply_key r key (s, lg)") auto
  from apply_key_frame[OF 1, of k] Cons.IH[OF 2] show ?case by simp
qed

lemma apply_loop_Returned:
  assumes "\<forall>k. pruned (self_deltas s k) = []"
  shows "\<exists>s' lg'. for_each (apply_key r) ks (s, lg) = Returned (s', lg')"
  using assms
proof (induction ks arbitrary: s lg)
  case Nil
  show ?case by simp
next
  case (Cons key ks)
  from Cons.prems have "pruned (self_deltas s key) = []" by simp
  from apply_key_Returned[OF this, of r lg] obtain s1 l1 where
    1: "apply_key r key (s, lg) = Returned (s1, l1)" by blast
  from apply_key_frame[OF 1] Cons.prems have "\<forall>k. pruned (self_deltas s1 k) = []" by simp
  from Cons.IH[OF this, of l1] 1 show ?case by simp
qed

lemma gather_added_frame:
  "self_added (gather_added key s) = self_added s
   \<and> self_updated (gather_added key s) = self_updated s
   \<and> pruned (self_deltas (gather_added key s) k) = pruned (self_deltas s k)
   \<and> w_updated (self_wdeltas (gather_added key s)) = w_updated (self_wdeltas s)"
  by (simp add: gather_added_def)

lemma gather_added_fold_frame:
  "self_added (fold gather_added ks s) = self_added s
   \<and> self_updated (fold gather_added ks s) = self_updated s
   \<and> pruned (self_deltas (fold gather_added ks s) k) = pruned (self_deltas s k)
   \<and> w_updated (self_wdeltas (fold gather_added ks s)) = w_updated (self_wdeltas s)"
  by (induction ks arbitrary: s) (simp_all add: gather_added_frame)

lemma gather_added_fold_grows:
  "k \<in> set ks \<Longrightarrow> k \<noteq> WORKFLOW \<Longrightarrow> elements (self_added s) k \<noteq> [] \<Longrightarrow>
   added (self_deltas (fold gather_added ks s) k) \<noteq> []"
proof -
  have keep: "added (self_deltas s k) \<noteq> [] \<Longrightarrow> added (self_deltas (fold gather_added ks s) k) \<noteq> []"
    for ks s
    by (induction ks arbitrary: s) (simp_all add: gather_added_def)
  show "k \<in> set ks \<Longrightarrow> k \<noteq> WORKFLOW \<Longrightarrow> elements (self_added s) k \<noteq> [] \<Longrightarrow>
        added (self_deltas (fold gather_added ks s) k) \<noteq> []"
  proof (induction ks arbitrary: s)
    case Nil
    then show ?case by simp
  next
    case (Cons a ks)
    show ?case
    proof (cases "a = k")
      case True
      with Cons.prems have "added (self_deltas (gather_added a s) k) \<noteq> []"
        by (simp add: gather_added_def)
      from keep[OF this] show ?thesis by simp
    next
      case False
      with Cons.prems have "k \<in> set ks" by simp
      moreover have "elements (self_added (gather_added a s)) k \<noteq> []"
        using Cons.prems by (simp add: gather_added_frame)
      ultimately show ?thesis using Cons.IH Cons.prems by simp
    qed
  qed
qed

lemma gather_updated_frame:
  "self_updated (gather_updated key s) = self_updated s
   \<and> added (self_deltas (gather_updated key s) k) = added (self_deltas s k)
   \<and> pruned (self_deltas (gather_updated key s) k) = pruned (self_deltas s k)"
  by (simp add: gather_updated_def)

lemma gather_updated_fold_frame:
  "self_updated (fold gather_updated ks s) = self_updated s
   \<and> added (self_deltas (fold gather_updated ks s) k) = added (self_deltas s k)
   \<and> pruned (self_deltas (fold gather_updated ks s) k) = pruned (self_deltas s k)"
  by (induction ks arbitrary: s) (simp_all add: gather_updated_frame)

lemma gather_updated_fold_workflow:
  "WORKFLOW \<in> set ks \<Longrightarrow> workflow (self_updated s) \<noteq> [] \<Longrightarrow>
   w_updated (self_wdeltas (fold gather_updated ks s)) = workflow (self_updated s)"
proof -
  have keep: "w_updated (self_wdeltas s) = workflow (self_updated s) \<Longrightarrow>
      w_updated (self_wdeltas (fold gather_updated ks s)) = workflow (self_updated s)" for ks s
    by (induction ks arbitrary: s) (simp_all add: gather_updated_def)
  show "WORKFLOW \<in> set ks \<Longrightarrow> workflow (self_updated s) \<noteq> [] \<Longrightarrow>
      w_updated (self_wdeltas (fold gather_updated ks s)) = workflow (self_updated s)"
  proof (induction ks arbitrary: s)
    case Nil
    then show ?case by simp
  next
    case (Cons a ks)
    show ?case
    proof (cases "a = WORKFLOW")
      case True
      have "w_updated (self_wdeltas (gather_updated a s)) = workflow (self_updated (gather_updated a s))"
        using True Cons.prems by (simp add: gather_updated_def ListFields_def)
      from keep[OF this] show ?thesis by (simp add: gather_updated_frame)
    next
      case False
      with Cons.prems have "WORKFLOW \<in> set ks" by simp
      from Cons.IH[OF this, of "gather_updated a s"] Cons.prems show ?thesis
        by (simp add: gather_updated_frame)
    qed
  qed
qed

lemma stamp_fold_frame:
  "added (self_deltas (fold (stamp_key t) ks s) k) = added (self_deltas s k)
   \<and> w_updated (self_wdeltas (fold (stamp_key t) ks s)) = w_updated (self_wdeltas s)"
  by (induction ks arbitrary: s) (simp_all add: stamp_key_def)

text \<open>\<^verbatim>\<open>apply_deltas\<close> as a sequence of named states.\<close>

lemma apply_deltas_run:
  assumes "apply_deltas env r s = Returned (s', lg)"
  obtains sa where
    "for_each (apply_key r) kinds
       (fold gather_updated kinds (fold gather_added kinds (copy_job_deltas s)), []) = Returned (sa, lg)"
    "s' = clear_job_pool (fold (stamp_key (time_now env sa)) kinds (tick sa))"
proof -
  obtain sa la where loop: "for_each (apply_key r) kinds
       (fold gather_updated kinds (fold gather_added kinds (copy_job_deltas s)), []) = Returned (sa, la)"
    using assms unfolding apply_deltas_def Let_def
    by (cases "for_each (apply_key r) kinds
         (fold gather_updated kinds (fold gather_added kinds (copy_job_deltas s)), [])") auto
  with assms have "s' = clear_job_pool (fold (stamp_key (time_now env sa)) kinds (tick sa))" "la = lg"
    unfolding apply_deltas_def Let_def by simp_all
  with loop that show ?thesis by blast
qed

lemma apply_deltas_returns:
  assumes "\<forall>k. pruned (self_deltas s k) = []" and "pruned (job_pool_deltas s) = []"
  shows "\<exists>s' lg. apply_deltas env r s = Returned (s', lg)"
proof -
  have "\<forall>k. pruned (self_deltas (copy_job_deltas s) k) = []"
    using assms by (simp add: copy_job_deltas_def Let_def)
  then have "\<forall>k. pruned (self_deltas
      (fold gather_updated kinds (fold gather_added kinds (copy_job_deltas s))) k) = []"
    by (simp add: gather_updated_fold_frame gather_added_fold_frame)
  from apply_loop_Returned[OF this, of r kinds "[]"] show ?thesis
    by (auto simp: apply_deltas_def Let_def)
qed

lemma apply_deltas_added_set:
  assumes run: "apply_deltas env r s = Returned (s', lg)"
    and key: "key \<noteq> WORKFLOW" "key \<noteq> JOBS"
    and ne: "elements (self_added s) key \<noteq> []"
  shows "delta_is_set s' key"
proof -
  from apply_deltas_run[OF run] obtain sa where
    loop: "for_each (apply_key r) kinds
       (fold gather_updated kinds (fold gather_added kinds (copy_job_deltas s)), []) = Returned (sa, lg)"
    and s': "s' = clear_job_pool (fold (stamp_key (time_now env sa)) kinds (tick sa))" .
  have "elements (self_added (copy_job_deltas s)) key \<noteq> []"
    using ne key by (simp add: copy_job_deltas_def Let_def put_elements_def)
  then have "added (self_deltas (fold gather_added kinds (copy_job_deltas s)) key) \<noteq> []"
    using gather_added_fold_grows[OF distinct_kinds(2) key(1)] by blast
  then have "added (self_deltas sa key) \<noteq> []"
    using apply_loop_frame[OF loop, of key] by (simp add: gather_updated_fold_frame)
  then have "added (self_deltas s' key) \<noteq> []"
    by (simp add: s' clear_job_pool_def stamp_fold_frame tick_def)
  then show ?thesis using key by (simp add: delta_is_set_def deltas_set_def)
qed

lemma apply_deltas_workflow_set:
  assumes run: "apply_deltas env r s = Returned (s', lg)"
    and ne: "workflow (self_updated s) \<noteq> []" and nj: "job_pool_added s = []"
  shows "delta_is_set s' WORKFLOW"
proof -
  from apply_deltas_run[OF run] obtain sa where
    loop: "for_each (apply_key r) kinds
       (fold gather_updated kinds (fold gather_added kinds (copy_job_deltas s)), []) = Returned (sa, lg)"
    and s': "s' = clear_job_pool (fold (stamp_key (time_now env sa)) kinds (tick sa))" .
  have "workflow (self_updated (copy_job_deltas s)) = workflow (self_updated s)"
    using nj by (simp add: copy_job_deltas_def Let_def put_elements_def)
  then have "workflow (self_updated (fold gather_added kinds (copy_job_deltas s))) \<noteq> []"
    using ne by (simp add: gather_added_fold_frame)
  from gather_updated_fold_workflow[OF distinct_kinds(2) this]
  have "w_updated (self_wdeltas (fold gather_updated kinds (fold gather_added kinds (copy_job_deltas s)))) \<noteq> []"
    using \<open>workflow (self_updated (fold gather_added kinds (copy_job_deltas s))) \<noteq> []\<close> by simp
  then have "w_updated (self_wdeltas sa) \<noteq> []"
    using apply_loop_frame[OF loop, of WORKFLOW] by simp
  then have "w_updated (self_wdeltas s') \<noteq> []"
    by (simp add: s' clear_job_pool_def stamp_fold_frame tick_def)
  then show ?thesis by (simp add: delta_is_set_def wdeltas_set_def)
qed

text \<open>The checksum of a known input.\<close>

lemma adler32_test_vector: "generate_checksum [''Wikipedia''] = 300286872"
  by (simp add: generate_checksum_def adler32_def)

lemma sample_no_prune:
  "\<forall>k. pruned (self_deltas sample_mgr k) = []" "pruned (job_pool_deltas sample_mgr) = []"
  by (simp_all add: sample_mgr_def init_def empty_deltas_def)

theorem apply_deltas_checksum_witness:
  "\<exists>s' lg. apply_deltas sample_env False sample_mgr = Returned (s', lg)
     \<and> delta_is_set s' TASKS
     \<and> delta_checksum s' TASKS =
         Some (adler32 (concat (sort (checksum_strings s' TASKS))) mod 4294967296)"
proof -
  from apply_deltas_returns[OF sample_no_prune, of sample_env False] obtain s' lg where
    run: "apply_deltas sample_env False sample_mgr = Returned (s', lg)" by blast
  have key: "TASKS \<noteq> WORKFLOW" by simp
  have ne: "elements (self_added sample_mgr) TASKS \<noteq> []"
    by (simp add: sample_mgr_def put_elements_def)
  have set: "delta_is_set s' TASKS"
    by (rule apply_deltas_added_set[OF run key _ ne]) simp
  note t = apply_deltas_checksum[OF run key set, THEN conjunct1]
  from run set t show ?thesis by blast
qed

text \<open>
  The workflow's delta has a field set after this run, and no checksum: the claim does
  not hold for every kind.
\<close>

theorem apply_deltas_checksum_counterexample:
  "\<exists>s' lg. apply_deltas sample_env False
       (sample_mgr\<lparr>self_updated := (self_updated sample_mgr)\<lparr>workflow := [(''status'', VStr ''held'')]\<rparr>\<rparr>)
       = Returned (s', lg)
     \<and> delta_is_set s' WORKFLOW
     \<and> delta_checksum s' WORKFLOW \<noteq> Some (generate_checksum (checksum_strings s' WORKFLOW))"
proof -
  let ?s = "sample_mgr\<lparr>self_updated := (self_updated sample_mgr)\<lparr>workflow := [(''status'', VStr ''held'')]\<rparr>\<rparr>"
  have np: "\<forall>k. pruned (self_deltas ?s k) = []" "pruned (job_pool_deltas ?s) = []"
    using sample_no_prune by simp_all
  from apply_deltas_returns[OF np, of sample_env False] obtain s' lg where
    run: "apply_deltas sample_env False ?s = Returned (s', lg)" by blast
  have "delta_is_set s' WORKFLOW"
    by (rule apply_deltas_workflow_set[OF run]) (simp_all add: sample_mgr_def init_def)
  moreover have "delta_checksum s' WORKFLOW \<noteq> Some (generate_checksum (checksum_strings s' WORKFLOW))"
    by (simp add: delta_checksum_def)
  ultimately show ?thesis using run by blast
qed

section \<open>Ghost nodes\<close>

text \<open>
  \<^verbatim>\<open>generate_ghost_task\<close> and \<^verbatim>\<open>generate_ghost_family\<close> write to the \<^verbatim>\<open>added\<close> buffer
  only; \<^term>\<open>ghost_frame\<close> collects what every step of them preserves.
\<close>

lemma keys_update_present: "k \<in> keys d \<Longrightarrow> keys (AList.update k v d) = keys d"
  by (auto simp: keys_def AList.dom_update)

lemma keys_update: "keys (AList.update k v d) = insert k (keys d)"
  by (simp add: keys_def AList.dom_update)

lemma map_of_Some_keys: "map_of d k = Some v \<Longrightarrow> k \<in> keys d"
  unfolding keys_def by (metis map_of_eq_None_iff option.distinct(1))

lemma add_child_frame:
  "self_data (state_of (add_child b fp cf ct s)) = self_data s
   \<and> (\<forall>k. keys (elements (self_added (state_of (add_child b fp cf ct s))) k)
          = keys (elements (self_added s) k))
   \<and> (\<forall>k. k \<noteq> FAMILY_PROXIES \<longrightarrow>
          elements (self_added (state_of (add_child b fp cf ct s))) k = elements (self_added s) k)"
proof (cases "map_of (elements (if b then self_updated s else self_added s) FAMILY_PROXIES) fp")
  case None
  then show ?thesis by (simp add: add_child_def Let_def)
next
  case (Some fp_parent)
  note look = this
  show ?thesis
  proof (cases "add_child_to cf ct fp_parent")
    case None
    with look show ?thesis by (simp add: add_child_def Let_def)
  next
    case (Some m)
    show ?thesis
    proof (cases b)
      case True
      with look Some show ?thesis by (simp add: add_child_def Let_def)
    next
      case False
      with look have "fp \<in> keys (elements (self_added s) FAMILY_PROXIES)"
        by (simp add: map_of_Some_keys)
      then have "keys (AList.update fp m (elements (self_added s) FAMILY_PROXIES))
                 = keys (elements (self_added s) FAMILY_PROXIES)"
        by (rule keys_update_present)
      with False look Some show ?thesis
        by (simp add: add_child_def Let_def put_elements_def)
    qed
  qed
qed

lemma record_family_proxy_frame:
  "self_data (record_family_proxy env t fp fam m s) = self_data s
   \<and> keys (elements (self_added (record_family_proxy env t fp fam m s)) FAMILY_PROXIES)
       = insert fp (keys (elements (self_added s) FAMILY_PROXIES))
   \<and> (\<forall>k. k \<noteq> FAMILY_PROXIES \<longrightarrow>
          elements (self_added (record_family_proxy env t fp fam m s)) k = elements (self_added s) k)"
  by (simp add: record_family_proxy_def Let_def put_elements_def keys_update)


lemma ghost_frame_refl: "ghost_frame s s"
  by (simp add: ghost_frame_def)

lemma ghost_frame_trans: "ghost_frame s r \<Longrightarrow> ghost_frame r r' \<Longrightarrow> ghost_frame s r'"
  unfolding ghost_frame_def
  by (intro conjI allI impI) (auto, blast+)

lemma ghost_frame_same:
  "self_data r = self_data s \<Longrightarrow> self_added r = self_added s \<Longrightarrow> ghost_frame s r"
  by (simp add: ghost_frame_def)

lemma ghost_frame_tick: "ghost_frame s (tick s)"
  by (simp add: ghost_frame_same tick_def)

lemma ghost_frame_add_child: "ghost_frame s (state_of (add_child b fp cf ct s))"
  using add_child_frame[of b fp cf ct s] by (simp add: ghost_frame_def)

lemma ghost_frame_record:
  assumes "fp \<notin> keys (elements (self_data s) FAMILY_PROXIES)"
  shows "ghost_frame s (record_family_proxy env t fp fam m s)"
proof -
  note f = record_family_proxy_frame[of env t fp fam m s]
  have sub: "keys (elements (self_added s) k)
      \<subseteq> keys (elements (self_added (record_family_proxy env t fp fam m s)) k)" for k
    using f by (cases "k = FAMILY_PROXIES") auto
  have new: "i \<notin> keys (elements (self_data s) k)"
    if "i \<in> keys (elements (self_added (record_family_proxy env t fp fam m s)) k)"
       "i \<notin> keys (elements (self_added s) k)" for k i
  proof (cases "k = FAMILY_PROXIES")
    case True
    with that f have "i = fp" by auto
    with True assms show ?thesis by simp
  next
    case False
    with that f show ?thesis by auto
  qed
  from f sub new show ?thesis unfolding ghost_frame_def by blast
qed

lemma ghost_frame_family:
  "ghost_frame s (state_of (generate_ghost_family depth env fp cf ct s))"
proof (induction depth arbitrary: fp cf ct s)
  case 0
  show ?case by (simp add: ghost_frame_refl)
next
  case (Suc depth)
  let ?s = "tick s"
  have t: "ghost_frame s ?s" by (rule ghost_frame_tick)
  show ?case
  proof (cases "fp \<in> keys (elements (self_data ?s) FAMILY_PROXIES)")
    case True
    let ?u = "?s\<lparr>self_updated := put_elements FAMILY_PROXIES
                      (setdefault fp (new_msg [(''id'', VStr fp)])
                         (elements (self_updated ?s) FAMILY_PROXIES))
                      (self_updated ?s)\<rparr>"
    have "ghost_frame ?s ?u" by (simp add: ghost_frame_same)
    from ghost_frame_trans[OF ghost_frame_trans[OF t this] ghost_frame_add_child[of ?u True fp cf ct]]
    show ?thesis using True by (simp add: Let_def)
  next
    case nd: False
    show ?thesis
    proof (cases "fp \<in> keys (elements (self_added ?s) FAMILY_PROXIES)")
      case True
      from ghost_frame_trans[OF t ghost_frame_add_child[of ?s False fp cf ct]]
      show ?thesis using nd True by (simp add: Let_def)
    next
      case na: False
      show ?thesis
      proof (cases "lookup_family env ?s fp")
        case (Inl e)
        with nd na t show ?thesis by (simp add: Let_def)
      next
        case (Inr tr)
        obtain pt fam names where tr: "tr = (pt, fam, names)" by (cases tr)
        define m where "m = new_family_proxy env (time_now env s) fp pt fam
                       (proxy_ancestors env (workflow_id ?s) pt (get_str fam ''name'') names)"
        define s1 where "s1 = record_family_proxy env (time_now env s) fp fam m ?s"
        have r: "ghost_frame s s1"
          unfolding s1_def by (rule ghost_frame_trans[OF t ghost_frame_record[OF nd]])
        show ?thesis
        proof (cases "get_str m ''first_parent'' \<noteq> []")
          case False
          from ghost_frame_trans[OF r ghost_frame_add_child[of s1 False fp cf ct]]
          show ?thesis using nd na Inr tr False
            by (simp add: Let_def m_def[symmetric] s1_def[symmetric])
        next
          case True
          let ?rec = "generate_ghost_family depth env (get_str m ''first_parent'') (Some fp) None s1"
          have ih: "ghost_frame s (state_of ?rec)"
            by (rule ghost_frame_trans[OF r Suc.IH])
          show ?thesis
          proof (cases ?rec)
            case (Raised e s')
            with ih show ?thesis using nd na Inr tr True
              by (simp add: Let_def m_def[symmetric] s1_def[symmetric])
          next
            case (Returned s')
            with ih have "ghost_frame s s'" by simp
            from ghost_frame_trans[OF this ghost_frame_add_child[of s' False fp cf ct]]
            show ?thesis using nd na Inr tr True Returned
              by (simp add: Let_def m_def[symmetric] s1_def[symmetric])
          qed
        qed
      qed
    qed
  qed
qed


lemma record_task_proxy_frame:
  "self_data (record_task_proxy env t t_id tp m s) = self_data s
   \<and> keys (elements (self_added (record_task_proxy env t t_id tp m s)) TASK_PROXIES)
       = insert tp (keys (elements (self_added s) TASK_PROXIES))
   \<and> (\<forall>k. k \<noteq> TASK_PROXIES \<longrightarrow>
          elements (self_added (record_task_proxy env t t_id tp m s)) k = elements (self_added s) k)"
  by (simp add: record_task_proxy_def Let_def put_elements_def keys_update)

lemma ghost_frame_record_task:
  assumes "tp \<notin> keys (elements (self_data s) TASK_PROXIES)"
  shows "ghost_frame s (record_task_proxy env t t_id tp m s)"
proof -
  note f = record_task_proxy_frame[of env t t_id tp m s]
  have sub: "keys (elements (self_added s) k)
      \<subseteq> keys (elements (self_added (record_task_proxy env t t_id tp m s)) k)" for k
    using f by (cases "k = TASK_PROXIES") auto
  have new: "i \<notin> keys (elements (self_data s) k)"
    if "i \<in> keys (elements (self_added (record_task_proxy env t t_id tp m s)) k)"
       "i \<notin> keys (elements (self_added s) k)" for k i
  proof (cases "k = TASK_PROXIES")
    case True
    with that f have "i = tp" by auto
    with True assms show ?thesis by simp
  next
    case False
    with that f show ?thesis by auto
  qed
  from f sub new show ?thesis unfolding ghost_frame_def by blast
qed

text \<open>The path of \<^verbatim>\<open>generate_ghost_task\<close> past the first test.\<close>

lemma generate_ghost_task_late:
  assumes "tp \<notin> keys (elements (self_data s) TASK_PROXIES)"
    and "tp \<notin> keys (elements (self_added s) TASK_PROXIES)"
  shows "(\<exists>e. generate_ghost_task depth env t_id tp pt s = Raised e (tick s))
       \<or> (\<exists>m s1. s1 = record_task_proxy env (time_now env s) t_id tp m (tick s)
            \<and> (generate_ghost_task depth env t_id tp pt s = Raised RecursionError s1
                \<or> (\<exists>d fp. generate_ghost_task depth env t_id tp pt s =
                            generate_ghost_family d env fp None (Some tp) s1)))"
proof (cases "lookup_task env (tick s) t_id pt")
  case (Inl e)
  with assms show ?thesis by (simp add: generate_ghost_task_def Let_def)
next
  case (Inr p)
  obtain taskdef anc where p: "p = (taskdef, anc)" by (cases p)
  define m where "m = new_task_proxy env (time_now env s) t_id tp pt taskdef anc"
  define s1 where "s1 = record_task_proxy env (time_now env s) t_id tp m (tick s)"
  show ?thesis
  proof (cases "depth = 0")
    case True
    with assms Inr p have "generate_ghost_task depth env t_id tp pt s = Raised RecursionError s1"
      by (simp add: generate_ghost_task_def Let_def s1_def m_def)
    with s1_def show ?thesis by blast
  next
    case False
    with assms Inr p have "generate_ghost_task depth env t_id tp pt s =
        generate_ghost_family (depth - 1) env (get_str m ''first_parent'') None (Some tp) s1"
      by (simp add: generate_ghost_task_def Let_def s1_def m_def)
    with s1_def show ?thesis by blast
  qed
qed

lemma ghost_frame_task:
  "ghost_frame s (state_of (generate_ghost_task depth env t_id tp pt s))"
proof (cases "tp \<in> keys (elements (self_data s) TASK_PROXIES)
              \<or> tp \<in> keys (elements (self_added s) TASK_PROXIES)")
  case True
  then show ?thesis by (simp add: generate_ghost_task_def ghost_frame_refl)
next
  case False
  then have a: "tp \<notin> keys (elements (self_data s) TASK_PROXIES)"
    and b: "tp \<notin> keys (elements (self_added s) TASK_PROXIES)" by simp_all
  have a': "tp \<notin> keys (elements (self_data (tick s)) TASK_PROXIES)"
    using a by (simp add: tick_def)
  from generate_ghost_task_late[OF a b, of depth env t_id pt]
  show ?thesis
  proof (elim disjE exE conjE)
    fix e assume "generate_ghost_task depth env t_id tp pt s = Raised e (tick s)"
    then show ?thesis by (simp add: ghost_frame_tick)
  next
    fix m s1
    assume s1: "s1 = record_task_proxy env (time_now env s) t_id tp m (tick s)"
      and r: "generate_ghost_task depth env t_id tp pt s = Raised RecursionError s1"
    have "ghost_frame s s1" unfolding s1
      by (rule ghost_frame_trans[OF ghost_frame_tick ghost_frame_record_task[OF a']])
    with r show ?thesis by simp
  next
    fix m s1 d fp
    assume s1: "s1 = record_task_proxy env (time_now env s) t_id tp m (tick s)"
      and r: "generate_ghost_task depth env t_id tp pt s =
                generate_ghost_family d env fp None (Some tp) s1"
    have "ghost_frame s s1" unfolding s1
      by (rule ghost_frame_trans[OF ghost_frame_tick ghost_frame_record_task[OF a']])
    from ghost_frame_trans[OF this ghost_frame_family] r show ?thesis by simp
  qed
qed

lemma generate_ghost_task_present_after:
  assumes "generate_ghost_task depth env t_id tp pt s = Returned s'"
  shows "tp \<in> keys (elements (self_data s') TASK_PROXIES)
       \<or> tp \<in> keys (elements (self_added s') TASK_PROXIES)"
proof (cases "tp \<in> keys (elements (self_data s) TASK_PROXIES)
              \<or> tp \<in> keys (elements (self_added s) TASK_PROXIES)")
  case True
  with assms show ?thesis by (simp add: generate_ghost_task_def)
next
  case False
  then have a: "tp \<notin> keys (elements (self_data s) TASK_PROXIES)"
    and b: "tp \<notin> keys (elements (self_added s) TASK_PROXIES)" by simp_all
  from generate_ghost_task_late[OF a b, of depth env t_id pt] assms
  obtain m s1 d fp where s1: "s1 = record_task_proxy env (time_now env s) t_id tp m (tick s)"
    and r: "generate_ghost_family d env fp None (Some tp) s1 = Returned s'"
    by auto
  have "tp \<in> keys (elements (self_added s1) TASK_PROXIES)"
    unfolding s1 using record_task_proxy_frame[of env "time_now env s" t_id tp m "tick s"] by simp
  moreover have "ghost_frame s1 s'"
    using ghost_frame_family[of s1 d env fp None "Some tp"] r by simp
  ultimately show ?thesis unfolding ghost_frame_def by blast
qed

text \<open>A run of \<^verbatim>\<open>generate_ghost_task\<close> for the task \<^verbatim>\<open>a\<close> at the point \<^verbatim>\<open>1\<close>.\<close>

lemma get_str_set_field: "get_str (set_field f (VStr x) m) f = x"
  by (simp add: get_str_def set_field_def is_default_def AList.update_conv' AList.delete_conv')

lemma get_str_set_field_other: "g \<noteq> f \<Longrightarrow> get_str (set_field f v m) g = get_str m g"
  by (simp add: get_str_def set_field_def AList.update_conv' AList.delete_conv')

lemma new_task_proxy_first_parent:
  "get_str (new_task_proxy env t t_id tp pt taskdef anc) ''first_parent'' = hd anc"
  by (simp add: new_task_proxy_def Let_def get_str_set_field)

lemma get_str_Nil: "get_str [] f = []"
  by (simp add: get_str_def)

lemma new_family_proxy_no_parent:
  "get_str (new_family_proxy env t fp pt fam []) ''first_parent'' = []"
  by (simp add: new_family_proxy_def Let_def new_msg_def get_str_set_field_other get_str_Nil)

lemma record_task_proxy_ids:
  "workflow_id (record_task_proxy env t t_id tp m s) = workflow_id s
   \<and> ancestors (record_task_proxy env t t_id tp m s) = ancestors s"
  by (simp add: record_task_proxy_def Let_def)

lemma record_family_proxy_entry:
  "map_of (elements (self_added (record_family_proxy env t fp fam m s)) FAMILY_PROXIES) fp = Some m"
  by (simp add: record_family_proxy_def Let_def put_elements_def AList.update_conv')

lemma tick_fields [simp]:
  "self_data (tick s) = self_data s" "self_added (tick s) = self_added s"
  "self_updated (tick s) = self_updated s" "workflow_id (tick s) = workflow_id s"
  "ancestors (tick s) = ancestors s"
  by (simp_all add: tick_def)

lemma sample_lookup_task:
  "lookup_task sample_env (tick sample_mgr) ''u|w|a'' ''1'' =
     Inr ([(''id'', VStr ''u|w|a''), (''name'', VStr ''a''), (''depth'', VInt 1)], [''u|w|1|root''])"
  by (simp add: lookup_task_def sample_mgr_def init_def tick_def put_elements_def
      DATA_TEMPLATE_def proxy_ancestors_def get_str_def sample_env_def)

lemma sample_ghost_task:
  "\<exists>s'. generate_ghost_task 5 sample_env ''u|w|a'' ''u|w|1|a'' ''1'' sample_mgr = Returned s'
     \<and> ''u|w|1|a'' \<in> keys (elements (self_added s') TASK_PROXIES)
     \<and> ''u|w|1|root'' \<in> keys (elements (self_added s') FAMILY_PROXIES)"
proof -
  let ?tp = "''u|w|1|a''" and ?fp = "''u|w|1|root''"
  let ?td = "[(''id'', VStr ''u|w|a''), (''name'', VStr ''a''), (''depth'', VInt 1)]"
  define m where "m = new_task_proxy sample_env (time_now sample_env sample_mgr) ''u|w|a'' ?tp ''1''
                        ?td [?fp]"
  define s1 where "s1 = record_task_proxy sample_env (time_now sample_env sample_mgr) ''u|w|a'' ?tp m
                          (tick sample_mgr)"
  have absent: "?tp \<notin> keys (elements (self_data sample_mgr) TASK_PROXIES)"
    "?tp \<notin> keys (elements (self_added sample_mgr) TASK_PROXIES)"
    by (simp_all add: sample_mgr_def init_def DATA_TEMPLATE_def put_elements_def keys_def)
  have step1: "generate_ghost_task 5 sample_env ''u|w|a'' ?tp ''1'' sample_mgr =
               generate_ghost_family 4 sample_env ?fp None (Some ?tp) s1"
    using absent
    by (simp add: generate_ghost_task_def sample_lookup_task Let_def m_def[symmetric]
        s1_def[symmetric]) (simp add: m_def new_task_proxy_first_parent)
  note f1 = record_task_proxy_frame[of sample_env "time_now sample_env sample_mgr" "''u|w|a''" ?tp m
              "tick sample_mgr"]
  have base: "self_data sample_mgr = DATA_TEMPLATE"
    "elements (self_added sample_mgr) FAMILIES =
       [(''u|w|root'', [(''id'', VStr ''u|w|root''), (''name'', VStr ''root'')])]"
    "elements (self_added sample_mgr) FAMILY_PROXIES = []"
    by (simp_all add: sample_mgr_def init_def put_elements_def DATA_TEMPLATE_def)
  have data1: "self_data s1 = DATA_TEMPLATE"
    using f1[THEN conjunct1] base(1) unfolding s1_def by simp
  have fams1: "elements (self_added s1) FAMILIES =
               [(''u|w|root'', [(''id'', VStr ''u|w|root''), (''name'', VStr ''root'')])]"
    using f1[THEN conjunct2, THEN conjunct2, rule_format, of FAMILIES] base(2)
    unfolding s1_def by simp
  have fps1: "elements (self_added s1) FAMILY_PROXIES = []"
    using f1[THEN conjunct2, THEN conjunct2, rule_format, of FAMILY_PROXIES] base(3)
    unfolding s1_def by simp
  have ids1: "workflow_id s1 = ''u|w''"
    "ancestors s1 = [(''a'', [''a'', ''root'']), (''root'', [''root''])]"
    by (simp_all add: s1_def record_task_proxy_ids sample_mgr_def init_def sample_env_def)
  have look: "lookup_family sample_env (tick s1) ?fp =
              Inr (''1'', [(''id'', VStr ''u|w|root''), (''name'', VStr ''root'')], [''root''])"
    by (simp add: lookup_family_def data1 fams1 ids1 DATA_TEMPLATE_def get_str_def)
       (simp add: sample_env_def)
  define fm where "fm = new_family_proxy sample_env (time_now sample_env s1) ?fp ''1''
       [(''id'', VStr ''u|w|root''), (''name'', VStr ''root'')] []"
  define s2 where "s2 = record_family_proxy sample_env (time_now sample_env s1) ?fp
       [(''id'', VStr ''u|w|root''), (''name'', VStr ''root'')] fm (tick s1)"
  have anc: "proxy_ancestors sample_env (workflow_id s1) ''1''
               (get_str [(''id'', VStr ''u|w|root''), (''name'', VStr ''root'')] ''name'') [''root''] = []"
    by (simp add: proxy_ancestors_def get_str_def)
  have step2: "generate_ghost_family 4 sample_env ?fp None (Some ?tp) s1 =
               add_child False ?fp None (Some ?tp) s2"
    unfolding numeral_eq_Suc pred_numeral_simps generate_ghost_family.simps Let_def
    by (simp add: data1 fps1 look anc DATA_TEMPLATE_def keys_def fm_def[symmetric]
        s2_def[symmetric]) (simp add: fm_def new_family_proxy_no_parent)
  have entry: "map_of (elements (self_added s2) FAMILY_PROXIES) ?fp = Some fm"
    unfolding s2_def by (rule record_family_proxy_entry)
  obtain s' where ret: "add_child False ?fp None (Some ?tp) s2 = Returned s'"
    by (simp add: add_child_def entry add_child_to_def Let_def)
  note f2 = record_family_proxy_frame[of sample_env "time_now sample_env s1" ?fp
      "[(''id'', VStr ''u|w|root''), (''name'', VStr ''root'')]" fm "tick s1"]
  note f3 = add_child_frame[of False ?fp None "Some ?tp" s2]
  have "?tp \<in> keys (elements (self_added s1) TASK_PROXIES)"
    using f1 by (simp add: s1_def[symmetric])
  then have "?tp \<in> keys (elements (self_added s2) TASK_PROXIES)"
    using f2 by (simp add: s2_def[symmetric])
  then have a: "?tp \<in> keys (elements (self_added s') TASK_PROXIES)"
    using f3 ret by simp
  have "?fp \<in> keys (elements (self_added s2) FAMILY_PROXIES)"
    using f2 by (simp add: s2_def[symmetric])
  then have b: "?fp \<in> keys (elements (self_added s') FAMILY_PROXIES)"
    using f3 ret by simp
  from step1 step2 ret a b show ?thesis by simp
qed

text \<open>
  Claim C6.  When the id of the task proxy is a key of the store's \<^verbatim>\<open>task_proxies\<close> or of
  \<^verbatim>\<open>added[task_proxies]\<close>, \<^verbatim>\<open>generate_ghost_task\<close> returns at once and the whole state of the
  manager (store, \<^verbatim>\<open>added\<close>, \<^verbatim>\<open>updated\<close>, deltas, every other attribute) is the one it was
  called with.  A second call with the same arguments therefore changes nothing either, and
  more generally any call that returns leaves a state on which the same call is the
  identity.
\<close>

theorem generate_ghost_task_existing:
  assumes "tp_id \<in> keys (elements (self_data s) TASK_PROXIES)
           \<or> tp_id \<in> keys (elements (self_added s) TASK_PROXIES)"
  shows "generate_ghost_task depth env t_id tp_id point_string s = Returned s
       \<and> generate_ghost_task depth' env t_id tp_id point_string
           (state_of (generate_ghost_task depth env t_id tp_id point_string s)) = Returned s
       \<and> (\<forall>s0 s1. generate_ghost_task depth env t_id tp_id point_string s0 = Returned s1 \<longrightarrow>
             generate_ghost_task depth' env t_id tp_id point_string s1 = Returned s1)"
proof -
  have 1: "generate_ghost_task d env t_id tp_id point_string s = Returned s" for d
    using assms by (simp add: generate_ghost_task_def)
  have 3: "generate_ghost_task depth' env t_id tp_id point_string s1 = Returned s1"
    if "generate_ghost_task depth env t_id tp_id point_string s0 = Returned s1" for s0 s1
    using generate_ghost_task_present_after[OF that]
    by (simp add: generate_ghost_task_def)
  from 1 3 show ?thesis by simp
qed

theorem generate_ghost_task_existing_witness:
  "generate_ghost_task 5 sample_env ''u|w|a'' ''u|w|1|a'' ''1''
     (sample_mgr\<lparr>self_added := put_elements TASK_PROXIES
         [(''u|w|1|a'', [(''id'', VStr ''u|w|1|a'')])] (self_added sample_mgr)\<rparr>) =
   Returned (sample_mgr\<lparr>self_added := put_elements TASK_PROXIES
         [(''u|w|1|a'', [(''id'', VStr ''u|w|1|a'')])] (self_added sample_mgr)\<rparr>)"
proof -
  let ?s = "sample_mgr\<lparr>self_added := put_elements TASK_PROXIES
         [(''u|w|1|a'', [(''id'', VStr ''u|w|1|a'')])] (self_added sample_mgr)\<rparr>"
  have "''u|w|1|a'' \<in> keys (elements (self_data ?s) TASK_PROXIES)
        \<or> ''u|w|1|a'' \<in> keys (elements (self_added ?s) TASK_PROXIES)"
    by (simp add: keys_def put_elements_def)
  from generate_ghost_task_existing[OF this, of 5 sample_env "''u|w|a''" "''1''" 5]
  show ?thesis by simp
qed

text \<open>
  Claim C7, for the ghost generation.  A call of \<^verbatim>\<open>generate_ghost_task\<close> or of
  \<^verbatim>\<open>generate_ghost_family\<close>, whether it returns or raises, leaves the store as it was, removes
  no key of \<^verbatim>\<open>added\<close>, and every key it inserts into \<^verbatim>\<open>added\<close> was a key neither of
  \<^verbatim>\<open>added\<close> nor of the store.  So for every kind, if the keys of \<^verbatim>\<open>added\<close> and of the store are
  disjoint before the call, they are disjoint after it.
\<close>

theorem ghost_generation_keeps_added_disjoint:
  assumes "r = state_of (generate_ghost_task depth env t_id tp_id point_string s)
           \<or> r = state_of (generate_ghost_family depth env fp_id child_fam child_task s)"
  shows "self_data r = self_data s
       \<and> (\<forall>k. keys (elements (self_added s) k) \<subseteq> keys (elements (self_added r) k))
       \<and> (\<forall>k i. i \<in> keys (elements (self_added r) k) \<longrightarrow> i \<notin> keys (elements (self_added s) k)
              \<longrightarrow> i \<notin> keys (elements (self_data s) k) \<and> i \<notin> keys (elements (self_data r) k))
       \<and> (\<forall>k. added_disjoint s k \<longrightarrow> added_disjoint r k)"
proof -
  have f: "ghost_frame s r"
    using assms ghost_frame_task ghost_frame_family by blast
  then have d: "self_data r = self_data s" by (simp add: ghost_frame_def)
  have new: "i \<notin> keys (elements (self_data s) k)"
    if "i \<in> keys (elements (self_added r) k)" "i \<notin> keys (elements (self_added s) k)" for k i
    using f that unfolding ghost_frame_def by blast
  have sub: "keys (elements (self_added s) k) \<subseteq> keys (elements (self_added r) k)" for k
    using f unfolding ghost_frame_def by blast
  have dis: "added_disjoint r k" if "added_disjoint s k" for k
    unfolding added_disjoint_def
  proof (rule ccontr)
    assume "keys (elements (self_added r) k) \<inter> keys (elements (self_data r) k) \<noteq> {}"
    then obtain i where i: "i \<in> keys (elements (self_added r) k)"
      "i \<in> keys (elements (self_data s) k)" using d by auto
    show False
    proof (cases "i \<in> keys (elements (self_added s) k)")
      case True
      with i(2) that show False unfolding added_disjoint_def by blast
    next
      case False
      from new[OF i(1) False] i(2) show False by simp
    qed
  qed
  from d sub new dis show ?thesis by simp
qed

lemma sample_disjoint: "added_disjoint sample_mgr k"
  by (simp add: added_disjoint_def sample_mgr_def init_def DATA_TEMPLATE_def keys_def)

theorem ghost_generation_keeps_added_disjoint_witness:
  "\<exists>s'. generate_ghost_task 5 sample_env ''u|w|a'' ''u|w|1|a'' ''1'' sample_mgr = Returned s'
     \<and> ''u|w|1|a'' \<in> keys (elements (self_added s') TASK_PROXIES)
     \<and> ''u|w|1|root'' \<in> keys (elements (self_added s') FAMILY_PROXIES)
     \<and> added_disjoint s' TASK_PROXIES
     \<and> added_disjoint s' FAMILY_PROXIES
     \<and> self_data s' = self_data sample_mgr"
proof -
  from sample_ghost_task obtain s' where
    run: "generate_ghost_task 5 sample_env ''u|w|a'' ''u|w|1|a'' ''1'' sample_mgr = Returned s'"
    and tp: "''u|w|1|a'' \<in> keys (elements (self_added s') TASK_PROXIES)"
    and fp: "''u|w|1|root'' \<in> keys (elements (self_added s') FAMILY_PROXIES)"
    by blast
  have a: "s' = state_of (generate_ghost_task 5 sample_env ''u|w|a'' ''u|w|1|a'' ''1'' sample_mgr)
           \<or> s' = state_of (generate_ghost_family 5 sample_env [] None None sample_mgr)"
    by (simp add: run)
  note t = ghost_generation_keeps_added_disjoint[OF a]
  note d = t[THEN conjunct1]
  note p = t[THEN conjunct2, THEN conjunct2, THEN conjunct2, rule_format, OF sample_disjoint]
  from run tp fp d p show ?thesis by blast
qed

text \<open>
  \<^verbatim>\<open>apply_deltas\<close>, when nothing is pruned, puts every element of \<^verbatim>\<open>added\<close> into the store
  and keeps it in \<^verbatim>\<open>added\<close>.
\<close>

lemma apply_delta_no_prune:
  "pruned delta = [] \<Longrightarrow>
   fst (apply_delta key delta st) =
     Returned (st\<lparr>elements := (elements st)(key := fst (apply_updated key (updated delta)
        (if added delta \<noteq> [] then dict_update (elements st key) (dict_by_id (added delta))
         else elements st key, [])))\<rparr>)"
  by (simp add: apply_delta_alt)

lemma apply_key_data_keys:
  assumes "apply_key r key (s, lg) = Returned (s', lg')"
    and "pruned (self_deltas s key) = []"
  shows "keys (elements (self_data s) k) \<subseteq> keys (elements (self_data s') k)
       \<and> (key \<noteq> WORKFLOW \<longrightarrow> added (self_deltas s key) \<noteq> [] \<longrightarrow>
            get_id ` set (added (self_deltas s key)) \<subseteq> keys (elements (self_data s') key))
       \<and> self_added s' = self_added s"
proof (cases "key = WORKFLOW")
  case True
  with assms(1) show ?thesis
    by (auto simp: apply_key_def Let_def apply_delta_workflow_def split: if_splits)
next
  case False
  show ?thesis
  proof (cases "deltas_set (self_deltas s key)")
    case ns: False
    then have "added (self_deltas s key) = []" by (simp add: deltas_set_def)
    with ns False assms(1) show ?thesis by (simp add: apply_key_def Let_def)
  next
    case True
    let ?delta = "(self_deltas s key)\<lparr>reloaded := r\<rparr>"
    let ?d1 = "if added ?delta \<noteq> []
               then dict_update (elements (self_data s) key) (dict_by_id (added ?delta))
               else elements (self_data s) key"
    let ?d = "fst (apply_updated key (updated ?delta) (?d1, []))"
    have p: "pruned ?delta = []" using assms(2) by simp
    have s': "self_data s' = (self_data s)\<lparr>elements := (elements (self_data s))(key := ?d)\<rparr>"
      and a': "self_added s' = self_added s"
      using assms(1) False True apply_delta_no_prune[OF p, of key "self_data s"]
      by (auto simp: apply_key_def Let_def split: outcome.splits)
    have kd: "keys ?d = keys ?d1"
      using apply_updated_keys[of key "updated ?delta" "(?d1, [])"] by (simp add: keys_def)
    have k1: "keys (elements (self_data s) key) \<subseteq> keys ?d1"
      by (auto simp: keys_def dict_update_keys)
    have k2: "added (self_deltas s key) \<noteq> [] \<Longrightarrow> get_id ` set (added (self_deltas s key)) \<subseteq> keys ?d1"
      by (simp add: keys_def dict_update_keys dict_by_id_keys)
    have 1: "keys (elements (self_data s) k) \<subseteq> keys (elements (self_data s') k)"
      using k1 kd by (cases "k = key") (simp_all add: s')
    have el: "elements (self_data s') key = ?d" by (simp add: s')
    have 2: "added (self_deltas s key) \<noteq> [] \<longrightarrow>
            get_id ` set (added (self_deltas s key)) \<subseteq> keys (elements (self_data s') key)"
    proof
      assume "added (self_deltas s key) \<noteq> []"
      from k2[OF this] have "get_id ` set (added (self_deltas s key)) \<subseteq> keys ?d"
        unfolding kd .
      then show "get_id ` set (added (self_deltas s key)) \<subseteq> keys (elements (self_data s') key)"
        unfolding el .
    qed
    from 1 2 a' show ?thesis by simp
  qed
qed

lemma apply_loop_data_keys:
  assumes "for_each (apply_key r) ks (s, lg) = Returned (s', lg')"
    and "\<forall>k. pruned (self_deltas s k) = []"
  shows "keys (elements (self_data s) k) \<subseteq> keys (elements (self_data s') k)
       \<and> (k \<in> set ks \<longrightarrow> k \<noteq> WORKFLOW \<longrightarrow> added (self_deltas s k) \<noteq> [] \<longrightarrow>
            get_id ` set (added (self_deltas s k)) \<subseteq> keys (elements (self_data s') k))
       \<and> self_added s' = self_added s"
  using assms
proof (induction ks arbitrary: s lg)
  case Nil
  then show ?case by simp
next
  case (Cons key ks)
  from Cons.prems(1) obtain s1 l1 where
    1: "apply_key r key (s, lg) = Returned (s1, l1)" and
    2: "for_each (apply_key r) ks (s1, l1) = Returned (s', lg')"
    by (cases "apply_key r key (s, lg)") auto
  from Cons.prems(2) have p: "pruned (self_deltas s key) = []" by simp
  note a = apply_key_data_keys[OF 1 p, of k]
  note fr = apply_key_frame[OF 1]
  have np: "\<forall>k. pruned (self_deltas s1 k) = []" using fr Cons.prems(2) by simp
  note ih = Cons.IH[OF 2 np]
  have mono: "keys (elements (self_data s) k) \<subseteq> keys (elements (self_data s') k)"
    using a ih by blast
  have sa: "self_added s' = self_added s" using a ih by simp
  have grow: "get_id ` set (added (self_deltas s k)) \<subseteq> keys (elements (self_data s') k)"
    if "k \<in> set (key # ks)" "k \<noteq> WORKFLOW" "added (self_deltas s k) \<noteq> []"
  proof (cases "k = key")
    case True
    with that a have "get_id ` set (added (self_deltas s k)) \<subseteq> keys (elements (self_data s1) k)"
      by simp
    with ih show ?thesis by blast
  next
    case False
    with that have "k \<in> set ks" by simp
    moreover have "added (self_deltas s1 k) = added (self_deltas s k)" using fr[of k] by simp
    ultimately show ?thesis using ih that by simp
  qed
  from mono sa grow show ?case by blast
qed

lemma gather_added_fold_holds:
  "k \<in> set ks \<Longrightarrow> k \<noteq> WORKFLOW \<Longrightarrow>
   set (map snd (elements (self_added s) k)) \<subseteq> set (added (self_deltas (fold gather_added ks s) k))"
proof -
  have keep: "set (added (self_deltas s k)) \<subseteq> set (added (self_deltas (fold gather_added ks s) k))"
    for ks and s :: "'a mgr"
  proof (induction ks arbitrary: s)
    case Nil
    show ?case by simp
  next
    case (Cons a ks)
    have "set (added (self_deltas s k)) \<subseteq> set (added (self_deltas (gather_added a s) k))"
      by (auto simp: gather_added_def)
    with Cons.IH[of "gather_added a s"] show ?case by auto
  qed
  show "k \<in> set ks \<Longrightarrow> k \<noteq> WORKFLOW \<Longrightarrow>
   set (map snd (elements (self_added s) k)) \<subseteq> set (added (self_deltas (fold gather_added ks s) k))"
  proof (induction ks arbitrary: s)
    case Nil
    then show ?case by simp
  next
    case (Cons a ks)
    show ?case
    proof (cases "a = k")
      case True
      have "set (map snd (elements (self_added s) k)) \<subseteq> set (added (self_deltas (gather_added a s) k))"
        using True Cons.prems by (auto simp: gather_added_def)
      with keep[of "gather_added a s" ks] show ?thesis by auto
    next
      case False
      with Cons.prems have "k \<in> set ks" by simp
      from Cons.IH[OF this Cons.prems(2), of "gather_added a s"] show ?thesis
        by (simp add: gather_added_frame)
    qed
  qed
qed

lemma apply_deltas_overlap:
  assumes run: "apply_deltas env r s = Returned (s', lg)"
    and key: "key \<noteq> WORKFLOW" "key \<noteq> JOBS"
    and np: "\<forall>k. pruned (self_deltas s k) = []" "pruned (job_pool_deltas s) = []"
    and e: "(i, e) \<in> set (elements (self_added s) key)" "get_id e = i"
  shows "i \<in> keys (elements (self_added s') key) \<and> i \<in> keys (elements (self_data s') key)"
proof -
  from apply_deltas_run[OF run] obtain sa where
    loop: "for_each (apply_key r) kinds
       (fold gather_updated kinds (fold gather_added kinds (copy_job_deltas s)), []) = Returned (sa, lg)"
    and s': "s' = clear_job_pool (fold (stamp_key (time_now env sa)) kinds (tick sa))" .
  let ?s1 = "copy_job_deltas s"
  let ?s2 = "fold gather_added kinds ?s1"
  let ?s3 = "fold gather_updated kinds ?s2"
  have el1: "elements (self_added ?s1) key = elements (self_added s) key"
    using key by (simp add: copy_job_deltas_def Let_def put_elements_def)
  have np1: "\<forall>k. pruned (self_deltas ?s1 k) = []"
    using np by (simp add: copy_job_deltas_def Let_def)
  have np3: "\<forall>k. pruned (self_deltas ?s3 k) = []"
    using np1 by (simp add: gather_updated_fold_frame gather_added_fold_frame)
  have "e \<in> set (map snd (elements (self_added ?s1) key))"
    using e(1) el1 by force
  then have "e \<in> set (added (self_deltas ?s2 key))"
    using gather_added_fold_holds[OF distinct_kinds(2) key(1), of ?s1] by blast
  then have in3: "e \<in> set (added (self_deltas ?s3 key))"
    by (simp add: gather_updated_fold_frame)
  then have ne3: "added (self_deltas ?s3 key) \<noteq> []" by auto
  note l = apply_loop_data_keys[OF loop np3, of key]
  have "get_id ` set (added (self_deltas ?s3 key)) \<subseteq> keys (elements (self_data sa) key)"
    using l ne3 key(1) distinct_kinds(2) by blast
  with in3 e(2) have d: "i \<in> keys (elements (self_data sa) key)" by blast
  have gu: "self_added (fold gather_updated ks x) = self_added x" for ks and x :: "'a mgr"
    by (induction ks arbitrary: x) (simp_all add: gather_updated_def)
  have "self_added sa = self_added ?s3" using l by simp
  then have "elements (self_added sa) key = elements (self_added s) key"
    using el1 by (simp add: gu gather_added_fold_frame)
  then have a: "i \<in> keys (elements (self_added sa) key)"
    using e(1) by (force simp: keys_def)
  have sd: "self_data s' = self_data sa"
    by (simp add: s' clear_job_pool_def)
  have sa': "self_added s' = self_added sa"
  proof -
    have "self_added (fold (stamp_key t) ks x) = self_added x" for t ks and x :: "'a mgr"
      by (induction ks arbitrary: x) (simp_all add: stamp_key_def)
    then show ?thesis by (simp add: s' clear_job_pool_def)
  qed
  from a d sd sa' show ?thesis by simp
qed

text \<open>
  Claim C7, the point of the window where the disjointness fails.  \<^verbatim>\<open>apply_deltas\<close> merges
  the \<^verbatim>\<open>added\<close> buffer into the store and leaves the buffer as it is: the buffer is
  emptied only by \<^verbatim>\<open>clear_deltas\<close>, which the scheduler calls after publishing.  Between
  the two calls the task definition \<^verbatim>\<open>u|w|a\<close> is in \<^verbatim>\<open>added[TASKS]\<close> and in the store.
\<close>

theorem added_disjoint_counterexample:
  "\<exists>s' lg. apply_deltas sample_env False sample_mgr = Returned (s', lg)
     \<and> ''u|w|a'' \<in> keys (elements (self_added s') TASKS)
     \<and> ''u|w|a'' \<in> keys (elements (self_data s') TASKS)
     \<and> \<not> added_disjoint s' TASKS"
proof -
  from apply_deltas_returns[OF sample_no_prune, of sample_env False] obtain s' lg where
    run: "apply_deltas sample_env False sample_mgr = Returned (s', lg)" by blast
  have e: "(''u|w|a'', [(''id'', VStr ''u|w|a''), (''name'', VStr ''a''), (''depth'', VInt 1)])
           \<in> set (elements (self_added sample_mgr) TASKS)"
    by (simp add: sample_mgr_def put_elements_def)
  have i: "get_id [(''id'', VStr ''u|w|a''), (''name'', VStr ''a''), (''depth'', VInt 1)] = ''u|w|a''"
    by (simp add: get_id_def get_str_def)
  from apply_deltas_overlap[OF run _ _ sample_no_prune e i]
  have o: "''u|w|a'' \<in> keys (elements (self_added s') TASKS)"
    "''u|w|a'' \<in> keys (elements (self_data s') TASKS)" by simp_all
  then have "\<not> added_disjoint s' TASKS" unfolding added_disjoint_def by blast
  with run o show ?thesis by blast
qed
end
